theory Spec2Isabelle
  imports Main "HOL-Library.AList"
begin

section \<open>Folder synchronisation (sync_folders.py)\<close>

text \<open>
  The program mirrors a source directory tree into a replica directory tree. The two trees
  are modelled as two separate values: the source is only read, the replica is passed
  through the pass and returned updated. A directory is an association list from entry
  names to nodes, in listing order; a file carries its bytes and its modification time.
  A path that does not exist is \<open>None\<close>.
\<close>

type_synonym name = string
type_synonym path = "name list"
type_synonym bytes = string

datatype node = File bytes nat | Dir "(name \<times> node) list"

type_synonym entries = "(name \<times> node) list"

text \<open>The log lines of the pass, each with the path relative to the two roots.\<close>

datatype event =
    CreatedDir path
  | Copied path
  | Removed path
  | RemovedEmptyDir path

text \<open>
  The exceptions of the operating-system calls. None of them is caught inside
  \<open>synchronize_folders\<close>, so each one ends the pass.
\<close>

datatype error =
    IsADirectoryError path
  | NotADirectoryError path
  | FileNotFoundError path
  | CopyError path

text \<open>The result of a statement: it finished, or it raised, with the state as it then was.\<close>

datatype 'a outcome = Done 'a | Raised error 'a

fun state_of :: "'a outcome \<Rightarrow> 'a" where
  "state_of (Done s) = s"
| "state_of (Raised e s) = s"


text \<open>A Python \<open>for\<close> loop over a list: the first exception leaves the loop.\<close>

fun for_each :: "('a \<Rightarrow> 's \<Rightarrow> 's outcome) \<Rightarrow> 'a list \<Rightarrow> 's \<Rightarrow> 's outcome" where
  "for_each body [] s = Done s"
| "for_each body (x # xs) s =
     (case body x s of Done s' \<Rightarrow> for_each body xs s' | Raised e s' \<Rightarrow> Raised e s')"

subsection \<open>calculate_md5\<close>

text \<open>
  \<open>f.read(4096)\<close> until it returns the empty bytes: the chunks of the file, in order.
\<close>

function read_chunks :: "nat \<Rightarrow> bytes \<Rightarrow> bytes list" where
  "read_chunks n bs = (if n = 0 \<or> bs = [] then [] else take n bs # read_chunks n (drop n bs))"
  by pat_completeness auto
termination
  by (relation "measure (\<lambda>(n, bs). length bs)") auto

declare read_chunks.simps [simp del]

text \<open>
  The hash object of \<open>hashlib\<close> is the data fed to it so far: \<open>update\<close> appends a chunk
  and \<open>hexdigest\<close> applies the digest function to the whole. The digest function itself
  (MD5) is a parameter \<open>md5\<close> of the model. Opening a directory raises.
\<close>

definition hash_update :: "bytes \<Rightarrow> bytes \<Rightarrow> bytes" where
  "hash_update chunk acc = acc @ chunk"

fun calculate_md5 :: "(bytes \<Rightarrow> string) \<Rightarrow> path \<Rightarrow> node \<Rightarrow> error + string" where
  "calculate_md5 md5 p (File c m) = Inr (md5 (fold hash_update (read_chunks 4096 c) []))"
| "calculate_md5 md5 p (Dir es) = Inl (IsADirectoryError p)"

subsection \<open>The downward pass\<close>

text \<open>
  \<open>shutil.copy2(source_file, replica_file)\<close> writes to the replica path itself: it opens
  the destination for writing, which truncates it, writes the bytes of the source and then
  copies the modification time. A copy can fail after some bytes were written; \<open>flt\<close>
  tells for each replica path whether it does, after how many bytes and at what time.
\<close>

type_synonym faults = "path \<Rightarrow> (nat \<times> nat) option"

definition no_faults :: faults where
  "no_faults = (\<lambda>p. None)"

definition copy2 :: "faults \<Rightarrow> path \<Rightarrow> name \<Rightarrow> bytes \<Rightarrow> nat \<Rightarrow> entries \<Rightarrow> entries outcome" where
  "copy2 flt rel n c m es =
     (case flt (rel @ [n]) of
        None \<Rightarrow> Done (AList.update n (File c m) es)
      | Some (k, t) \<Rightarrow> Raised (CopyError (rel @ [n])) (AList.update n (File (take k c) t) es))"

text \<open>The files and the subdirectory names of a scanned directory, in listing order.\<close>

fun files_of :: "entries \<Rightarrow> (name \<times> bytes \<times> nat) list" where
  "files_of [] = []"
| "files_of ((n, File c m) # es) = (n, c, m) # files_of es"
| "files_of ((n, Dir sub) # es) = files_of es"

fun dirs_of :: "entries \<Rightarrow> name list" where
  "dirs_of [] = []"
| "dirs_of ((n, File c m) # es) = dirs_of es"
| "dirs_of ((n, Dir sub) # es) = n # dirs_of es"

text \<open>
  Lines 34 to 40, the body of the loop over \<open>files\<close>. The state is the listing of
  \<open>replica_root\<close> and the log. \<open>os.path.exists\<close> is the lookup; the replica file is hashed
  only when it exists and after the source file.
\<close>

definition do_copy :: "faults \<Rightarrow> path \<Rightarrow> name \<Rightarrow> bytes \<Rightarrow> nat \<Rightarrow> entries \<times> event list
    \<Rightarrow> (entries \<times> event list) outcome" where
  "do_copy flt rel n c m st =
     (case copy2 flt rel n c m (fst st) of
        Done es' \<Rightarrow> Done (es', snd st @ [Copied (rel @ [n])])
      | Raised e es' \<Rightarrow> Raised e (es', snd st))"

fun sync_file :: "(bytes \<Rightarrow> string) \<Rightarrow> faults \<Rightarrow> path \<Rightarrow> name \<times> bytes \<times> nat
    \<Rightarrow> entries \<times> event list \<Rightarrow> (entries \<times> event list) outcome" where
  "sync_file md5 flt rel (n, c, m) (es, log) =
     (case map_of es n of
        None \<Rightarrow> do_copy flt rel n c m (es, log)
      | Some r \<Rightarrow>
          (case calculate_md5 md5 (rel @ [n]) (File c m) of
             Inl e \<Rightarrow> Raised e (es, log)
           | Inr hs \<Rightarrow>
               (case calculate_md5 md5 (rel @ [n]) r of
                  Inl e \<Rightarrow> Raised e (es, log)
                | Inr hr \<Rightarrow> if hs \<noteq> hr then do_copy flt rel n c m (es, log) else Done (es, log))))"

text \<open>
  Lines 43 to 47, the body of the loop over \<open>os.listdir(replica_root)\<close>. \<open>os.remove\<close>
  removes a file and raises on a directory.
\<close>

fun prune_entry :: "path \<Rightarrow> name list \<Rightarrow> name \<Rightarrow> entries \<times> event list
    \<Rightarrow> (entries \<times> event list) outcome" where
  "prune_entry rel files n (es, log) =
     (if n \<notin> set files then
        (case map_of es n of
           None \<Rightarrow> Raised (FileNotFoundError (rel @ [n])) (es, log)
         | Some (Dir sub) \<Rightarrow> Raised (IsADirectoryError (rel @ [n])) (es, log)
         | Some (File c m) \<Rightarrow> Done (AList.delete n es, log @ [Removed (rel @ [n])]))
      else Done (es, log))"

text \<open>
  Lines 28 to 47 for one directory of the source: \<open>r\<close> is what is at \<open>replica_root\<close>.
  When a file is there instead of a directory, the first call below it raises.
\<close>

definition mirror_dir :: "(bytes \<Rightarrow> string) \<Rightarrow> faults \<Rightarrow> path \<Rightarrow> entries \<Rightarrow> node option
    \<Rightarrow> event list \<Rightarrow> (node \<times> event list) outcome" where
  "mirror_dir md5 flt rel ses r log =
     (case r of
        Some (File c m) \<Rightarrow> Raised (NotADirectoryError rel) (File c m, log)
      | _ \<Rightarrow>
         (let st0 = (case r of Some (Dir es) \<Rightarrow> (es, log) | _ \<Rightarrow> ([], log @ [CreatedDir rel])) in
          case for_each (sync_file md5 flt rel) (files_of ses) st0 of
            Raised e (es, log') \<Rightarrow> Raised e (Dir es, log')
          | Done st1 \<Rightarrow>
             (case for_each (prune_entry rel (map fst (files_of ses))) (map fst (fst st1)) st1 of
                Raised e (es, log') \<Rightarrow> Raised e (Dir es, log')
              | Done (es, log') \<Rightarrow> Done (Dir es, log'))))"

text \<open>
  \<open>os.walk(source)\<close>, top-down: the directory is scanned, the body of the loop runs for it,
  then each subdirectory is walked in listing order. The body for the directory at \<open>rel\<close>
  touches only the entries of \<open>replica/rel\<close>, so the walk carries the replica node at
  \<open>rel\<close> and puts the result back into its parent.
\<close>

fun entries_of :: "node \<Rightarrow> entries" where
  "entries_of (Dir es) = es"
| "entries_of (File c m) = []"

fun walk_down :: "(bytes \<Rightarrow> string) \<Rightarrow> faults \<Rightarrow> path \<Rightarrow> entries \<Rightarrow> node option
    \<Rightarrow> event list \<Rightarrow> (node \<times> event list) outcome"
and walk_subdirs :: "(bytes \<Rightarrow> string) \<Rightarrow> faults \<Rightarrow> path \<Rightarrow> entries
    \<Rightarrow> entries \<times> event list \<Rightarrow> (entries \<times> event list) outcome" where
  "walk_down md5 flt rel ses r log =
     (case mirror_dir md5 flt rel ses r log of
        Raised e st \<Rightarrow> Raised e st
      | Done (d, log') \<Rightarrow>
          (case walk_subdirs md5 flt rel ses (entries_of d, log') of
             Raised e (es', l) \<Rightarrow> Raised e (Dir es', l)
           | Done (es', l) \<Rightarrow> Done (Dir es', l)))"
| "walk_subdirs md5 flt rel [] st = Done st"
| "walk_subdirs md5 flt rel ((n, File c m) # ses) st = walk_subdirs md5 flt rel ses st"
| "walk_subdirs md5 flt rel ((n, Dir sub) # ses) (es, log) =
     (case walk_down md5 flt (rel @ [n]) sub (map_of es n) log of
        Raised e (d, log') \<Rightarrow> Raised e (AList.update n d es, log')
      | Done (d, log') \<Rightarrow> walk_subdirs md5 flt rel ses (AList.update n d es, log'))"

subsection \<open>The upward sweep\<close>

text \<open>
  Lines 51 to 55, the body of the loop over \<open>dirs\<close>: \<open>os.listdir\<close> of the subdirectory,
  and \<open>os.rmdir\<close> when it is empty.
\<close>

fun rmdir_if_empty :: "path \<Rightarrow> name \<Rightarrow> entries \<times> event list \<Rightarrow> (entries \<times> event list) outcome" where
  "rmdir_if_empty rel n (es, log) =
     (case map_of es n of
        None \<Rightarrow> Raised (FileNotFoundError (rel @ [n])) (es, log)
      | Some (File c m) \<Rightarrow> Raised (NotADirectoryError (rel @ [n])) (es, log)
      | Some (Dir sub) \<Rightarrow>
          if sub = [] then Done (AList.delete n es, log @ [RemovedEmptyDir (rel @ [n])])
          else Done (es, log))"

text \<open>
  \<open>os.walk(replica, topdown=False)\<close>: the directory is scanned, each subdirectory of the
  scan is walked, and only then the body runs for the directory, with the \<open>dirs\<close> of the
  scan. The replica root is in no \<open>dirs\<close> list.
\<close>

fun walk_up :: "path \<Rightarrow> entries \<Rightarrow> event list \<Rightarrow> (entries \<times> event list) outcome"
and walk_up_dirs :: "path \<Rightarrow> entries \<Rightarrow> entries \<times> event list \<Rightarrow> (entries \<times> event list) outcome" where
  "walk_up rel es log =
     (case walk_up_dirs rel es (es, log) of
        Raised e st \<Rightarrow> Raised e st
      | Done st \<Rightarrow> for_each (rmdir_if_empty rel) (dirs_of es) st)"
| "walk_up_dirs rel [] st = Done st"
| "walk_up_dirs rel ((n, File c m) # rest) st = walk_up_dirs rel rest st"
| "walk_up_dirs rel ((n, Dir sub) # rest) (es, log) =
     (case walk_up (rel @ [n]) sub log of
        Raised e (sub', log') \<Rightarrow> Raised e (AList.update n (Dir sub') es, log')
      | Done (sub', log') \<Rightarrow> walk_up_dirs rel rest (AList.update n (Dir sub') es, log'))"

subsection \<open>synchronize_folders\<close>

text \<open>
  One pass. \<open>os.walk\<close> of a path that is not a directory yields nothing, so a missing
  source skips the first loop and a missing replica skips the second.
\<close>

definition downward :: "(bytes \<Rightarrow> string) \<Rightarrow> faults \<Rightarrow> node option \<Rightarrow> node option
    \<Rightarrow> (node option \<times> event list) outcome" where
  "downward md5 flt source replica =
     (case source of
        Some (Dir ses) \<Rightarrow>
          (case walk_down md5 flt [] ses replica [] of
             Raised e (d, log) \<Rightarrow> Raised e (Some d, log)
           | Done (d, log) \<Rightarrow> Done (Some d, log))
      | _ \<Rightarrow> Done (replica, []))"

definition upward :: "node option \<Rightarrow> event list \<Rightarrow> (node option \<times> event list) outcome" where
  "upward replica log =
     (case replica of
        Some (Dir es) \<Rightarrow>
          (case walk_up [] es log of
             Raised e (es', log') \<Rightarrow> Raised e (Some (Dir es'), log')
           | Done (es', log') \<Rightarrow> Done (Some (Dir es'), log'))
      | _ \<Rightarrow> Done (replica, log))"

definition synchronize_folders :: "(bytes \<Rightarrow> string) \<Rightarrow> faults \<Rightarrow> node option \<Rightarrow> node option
    \<Rightarrow> (node option \<times> event list) outcome" where
  "synchronize_folders md5 flt source replica =
     (case downward md5 flt source replica of
        Raised e st \<Rightarrow> Raised e st
      | Done (r, log) \<Rightarrow> upward r log)"

subsection \<open>Reading a tree\<close>

text \<open>The node at a relative path, if there is one. The root itself has the empty path.\<close>

fun lookup :: "entries \<Rightarrow> path \<Rightarrow> node option" where
  "lookup es [] = Some (Dir es)"
| "lookup es (n # p) =
     (case map_of es n of
        None \<Rightarrow> None
      | Some (File c m) \<Rightarrow> (if p = [] then Some (File c m) else None)
      | Some (Dir sub) \<Rightarrow> lookup sub p)"

text \<open>
  What can be observed at a path: nothing, a directory, or a file with its digest.
\<close>

datatype shape = IsDir | IsFile string

fun shape_of :: "(bytes \<Rightarrow> string) \<Rightarrow> node \<Rightarrow> shape" where
  "shape_of md5 (File c m) = IsFile (md5 c)"
| "shape_of md5 (Dir es) = IsDir"

definition shape_at :: "(bytes \<Rightarrow> string) \<Rightarrow> entries \<Rightarrow> path \<Rightarrow> shape option" where
  "shape_at md5 es p = map_option (shape_of md5) (lookup es p)"

text \<open>Every relative path below a directory, files and directories alike.\<close>

fun all_paths :: "path \<Rightarrow> entries \<Rightarrow> path list" where
  "all_paths rel [] = []"
| "all_paths rel ((n, File c m) # es) = (rel @ [n]) # all_paths rel es"
| "all_paths rel ((n, Dir sub) # es) = (rel @ [n]) # all_paths (rel @ [n]) sub @ all_paths rel es"

text \<open>Entry names are distinct in every directory of a tree.\<close>

fun wf :: "entries \<Rightarrow> bool" where
  "wf [] = True"
| "wf ((n, File c m) # es) = (n \<notin> fst ` set es \<and> wf es)"
| "wf ((n, Dir sub) # es) = (n \<notin> fst ` set es \<and> wf sub \<and> wf es)"

text \<open>A stand-in digest for running examples: the bytes themselves, so it has no collisions.\<close>

definition plain_digest :: "bytes \<Rightarrow> string" where
  "plain_digest bs = bs"

text \<open>
  The condition of line 38 for a source file with bytes \<open>c\<close> whose name is \<open>n\<close>: nothing
  is at the replica path, or a file with another digest is.
\<close>

definition needs_copy :: "(bytes \<Rightarrow> string) \<Rightarrow> entries \<Rightarrow> name \<Rightarrow> bytes \<Rightarrow> bool" where
  "needs_copy md5 es n c =
     (case map_of es n of
        None \<Rightarrow> True
      | Some (File c' m') \<Rightarrow> md5 c \<noteq> md5 c'
      | Some (Dir sub) \<Rightarrow> False)"

text \<open>
  What the upward sweep leaves of a directory: each subdirectory is swept first and dropped
  when nothing is left in it. \<open>swept_children\<close> is the state after the subdirectories have
  been walked and before the body runs for the directory itself.
\<close>

fun swept :: "entries \<Rightarrow> entries" where
  "swept [] = []"
| "swept ((n, File c m) # es) = (n, File c m) # swept es"
| "swept ((n, Dir sub) # es) =
     (if swept sub = [] then swept es else (n, Dir (swept sub)) # swept es)"

fun swept_children :: "entries \<Rightarrow> entries" where
  "swept_children [] = []"
| "swept_children ((n, File c m) # es) = (n, File c m) # swept_children es"
| "swept_children ((n, Dir sub) # es) = (n, Dir (swept sub)) # swept_children es"

fun put_swept :: "entries \<Rightarrow> entries \<Rightarrow> entries" where
  "put_swept [] cur = cur"
| "put_swept ((n, File c m) # rest) cur = put_swept rest cur"
| "put_swept ((n, Dir sub) # rest) cur = put_swept rest (AList.update n (Dir (swept sub)) cur)"

fun is_rmdir :: "event \<Rightarrow> bool" where
  "is_rmdir (RemovedEmptyDir p) = True"
| "is_rmdir e = False"

text \<open>No file at any depth below the directory.\<close>

fun hollow :: "entries \<Rightarrow> bool" where
  "hollow [] = True"
| "hollow ((n, File c m) # es) = False"
| "hollow ((n, Dir sub) # es) = (hollow sub \<and> hollow es)"

text \<open>No empty directory at any depth below the directory.\<close>

fun tidy :: "entries \<Rightarrow> bool" where
  "tidy [] = True"
| "tidy ((n, File c m) # es) = tidy es"
| "tidy ((n, Dir sub) # es) = (sub \<noteq> [] \<and> tidy sub \<and> tidy es)"

text \<open>
  The replica directory has distinct names throughout and shows, at every path, what the
  source directory shows there: nothing, a directory, or a file with the same digest.
\<close>

definition mirrors :: "(bytes \<Rightarrow> string) \<Rightarrow> entries \<Rightarrow> entries \<Rightarrow> bool" where
  "mirrors md5 ses es \<longleftrightarrow> wf es \<and> (\<forall>q. shape_at md5 es q = shape_at md5 ses q)"

text \<open>The log line of a directory creation.\<close>

fun is_mkdir :: "event \<Rightarrow> bool" where
  "is_mkdir (CreatedDir p) = True"
| "is_mkdir e = False"

section \<open>Properties\<close>

lemmas pass_defs =
  synchronize_folders_def downward_def upward_def mirror_dir_def do_copy_def copy2_def
  no_faults_def plain_digest_def

text \<open>
  C4. The pruning step hands every listed name that is not a source file name to
  \<open>os.remove\<close>, subdirectories included. With the source \<open>{dir/x.txt: "1"}\<close> and a replica
  that already mirrors it, the name \<open>dir\<close> is removed as a file, which raises, and the pass
  ends there.
\<close>

theorem prune_targets_directory:
  "synchronize_folders plain_digest no_faults
     (Some (Dir [(''dir'', Dir [(''x.txt'', File ''1'' 0)])]))
     (Some (Dir [(''dir'', Dir [(''x.txt'', File ''1'' 0)])]))
   = Raised (IsADirectoryError [''dir''])
       (Some (Dir [(''dir'', Dir [(''x.txt'', File ''1'' 0)])]), [])"
  by (simp add: pass_defs)

subsection \<open>Digests and the copy decision\<close>

lemma concat_read_chunks [simp]: "0 < n \<Longrightarrow> concat (read_chunks n bs) = bs"
proof (induction n bs rule: read_chunks.induct)
  case (1 n bs)
  then show ?case by (subst read_chunks.simps) auto
qed

lemma fold_hash_update [simp]: "fold hash_update xs acc = acc @ concat xs"
  by (induction xs arbitrary: acc) (simp_all add: hash_update_def)

lemma calculate_md5_File: "calculate_md5 md5 p (File c m) = Inr (md5 c)"
  by simp

lemma calculate_md5_Dir: "calculate_md5 md5 p (Dir es) = Inl (IsADirectoryError p)"
  by simp

lemma map_of_update [simp]: "map_of (AList.update k v es) = (map_of es)(k \<mapsto> v)"
  by (rule update_conv')

lemma sync_file_Done:
  assumes "sync_file md5 flt rel (n, c, m) (es, log) = Done (es', log')"
  shows "(\<forall>sub. map_of es n \<noteq> Some (Dir sub))
       \<and> (needs_copy md5 es n c \<longrightarrow> es' = AList.update n (File c m) es \<and> log' = log @ [Copied (rel @ [n])])
       \<and> (\<not> needs_copy md5 es n c \<longrightarrow> es' = es \<and> log' = log)"
  using assms
  by (auto simp: needs_copy_def do_copy_def copy2_def split: option.splits node.splits if_splits prod.splits)

lemma copy_files_frame:
  assumes "for_each (sync_file md5 flt rel) fs (es, log) = Done (es', log')"
      and "n \<notin> fst ` set fs"
  shows "map_of es' n = map_of es n \<and> (Copied (rel @ [n]) \<in> set log' \<longleftrightarrow> Copied (rel @ [n]) \<in> set log)"
  using assms
proof (induction fs arbitrary: es log)
  case Nil
  then show ?case by simp
next
  case (Cons f fs)
  obtain k c m where f: "f = (k, c, m)" by (cases f)
  from Cons.prems(1) obtain es1 log1 where
    s: "sync_file md5 flt rel (k, c, m) (es, log) = Done (es1, log1)"
    and r: "for_each (sync_file md5 flt rel) fs (es1, log1) = Done (es', log')"
    by (auto simp: f split: outcome.splits)
  from Cons.prems(2) have kn: "k \<noteq> n" and nfs: "n \<notin> fst ` set fs" by (auto simp: f)
  from sync_file_Done[OF s] kn
  have "map_of es1 n = map_of es n \<and> (Copied (rel @ [n]) \<in> set log1 \<longleftrightarrow> Copied (rel @ [n]) \<in> set log)"
    by (cases "needs_copy md5 es k c") auto
  with Cons.IH[OF r nfs] show ?case by simp
qed

lemma copy_files_decision:
  assumes "for_each (sync_file md5 flt rel) fs (es, log) = Done (es', log')"
      and "distinct (map fst fs)"
      and "(n, c, m) \<in> set fs"
  shows "(Copied (rel @ [n]) \<in> set log' \<longleftrightarrow> Copied (rel @ [n]) \<in> set log \<or> needs_copy md5 es n c)
       \<and> map_of es' n = (if needs_copy md5 es n c then Some (File c m) else map_of es n)
       \<and> (\<forall>sub. map_of es n \<noteq> Some (Dir sub))"
  using assms
proof (induction fs arbitrary: es log)
  case Nil
  then show ?case by simp
next
  case (Cons f fs)
  obtain k c0 m0 where f: "f = (k, c0, m0)" by (cases f)
  from Cons.prems(1) obtain es1 log1 where
    s: "sync_file md5 flt rel (k, c0, m0) (es, log) = Done (es1, log1)"
    and r: "for_each (sync_file md5 flt rel) fs (es1, log1) = Done (es', log')"
    by (auto simp: f split: outcome.splits)
  from Cons.prems(2) have kfs: "k \<notin> fst ` set fs" and d: "distinct (map fst fs)"
    by (auto simp: f)
  show ?case
  proof (cases "(n, c, m) \<in> set fs")
    case True
    then have kn: "k \<noteq> n" using kfs by force
    from sync_file_Done[OF s] kn
    have a: "map_of es1 n = map_of es n" "Copied (rel @ [n]) \<in> set log1 \<longleftrightarrow> Copied (rel @ [n]) \<in> set log"
      by (cases "needs_copy md5 es k c0"; auto)+
    then have b: "needs_copy md5 es1 n c = needs_copy md5 es n c" by (simp add: needs_copy_def)
    from Cons.IH[OF r d True] a b show ?thesis by simp
  next
    case False
    with Cons.prems(3) have e: "k = n" "c0 = c" "m0 = m" by (auto simp: f)
    from copy_files_frame[OF r] kfs e
    have fr: "map_of es' n = map_of es1 n" "Copied (rel @ [n]) \<in> set log' \<longleftrightarrow> Copied (rel @ [n]) \<in> set log1"
      by auto
    from sync_file_Done[OF s] e fr show ?thesis
      by (cases "needs_copy md5 es n c") auto
  qed
qed



subsection \<open>The upward sweep computes \<open>swept\<close>\<close>

lemma wf_distinct: "wf es \<Longrightarrow> distinct (map fst es)"
  by (induction es rule: wf.induct) auto

lemma fst_swept_children [simp]: "map fst (swept_children es) = map fst es"
  by (induction es rule: swept_children.induct) auto

lemma filter_swept_children:
  "filter (\<lambda>(n, x). x \<noteq> Dir []) (swept_children es) = swept es"
  by (induction es rule: swept.induct) auto

lemma update_append_fresh:
  "n \<notin> fst ` set pre \<Longrightarrow> AList.update n v (pre @ (n, x) # rest) = pre @ (n, v) # rest"
  by (induction pre) auto

lemma put_swept_append:
  "distinct (map fst (pre @ rest)) \<Longrightarrow> put_swept rest (pre @ rest) = pre @ swept_children rest"
proof (induction rest arbitrary: pre rule: swept_children.induct)
  case 1
  then show ?case by simp
next
  case (2 n c m es)
  from 2(2) have "distinct (map fst ((pre @ [(n, File c m)]) @ es))" by simp
  from 2(1)[OF this] show ?case by simp
next
  case (3 n sub es)
  from 3(2) have d: "distinct (map fst ((pre @ [(n, Dir (swept sub))]) @ es))"
    and f: "n \<notin> fst ` set pre" by auto
  from 3(1)[OF d] f show ?case by (simp add: update_append_fresh)
qed

lemma put_swept_self: "wf es \<Longrightarrow> put_swept es es = swept_children es"
  using put_swept_append[of "[]" es] by (simp add: wf_distinct)

lemma swept_children_dirs:
  "(n, Dir sub) \<in> set (swept_children es) \<Longrightarrow> n \<in> set (dirs_of es)"
  by (induction es rule: swept_children.induct) auto

lemma dirs_of_in_swept_children:
  "n \<in> set (dirs_of es) \<Longrightarrow> \<exists>sub. (n, Dir sub) \<in> set (swept_children es)"
  by (induction es rule: swept_children.induct) auto

lemma dirs_of_swept_children:
  assumes "distinct (map fst es)" "n \<in> set (dirs_of es)"
  shows "\<exists>sub. map_of (swept_children es) n = Some (Dir sub)"
proof -
  from dirs_of_in_swept_children[OF assms(2)] obtain sub
    where "(n, Dir sub) \<in> set (swept_children es)" ..
  moreover have "distinct (map fst (swept_children es))" using assms(1) by simp
  ultimately show ?thesis by (metis map_of_is_SomeI)
qed

lemma dirs_of_subset: "set (dirs_of es) \<subseteq> fst ` set es"
  by (induction es rule: dirs_of.induct) auto

lemma distinct_dirs_of: "distinct (map fst es) \<Longrightarrow> distinct (dirs_of es)"
  using dirs_of_subset by (induction es rule: dirs_of.induct) auto

lemma rmdir_loop:
  assumes "distinct (map fst cur)" "distinct ds"
      and "\<forall>n\<in>set ds. \<exists>sub. map_of cur n = Some (Dir sub)"
  shows "\<exists>evs. for_each (rmdir_if_empty rel) ds (cur, log)
           = Done (filter (\<lambda>(n, x). \<not> (n \<in> set ds \<and> x = Dir [])) cur, log @ evs)
         \<and> (\<forall>e\<in>set evs. is_rmdir e)"
  using assms
proof (induction ds arbitrary: cur log)
  case Nil
  then show ?case by simp
next
  case (Cons n ds)
  from Cons.prems obtain sub where sub: "map_of cur n = Some (Dir sub)" by auto
  have only: "\<And>x. (n, x) \<in> set cur \<Longrightarrow> x = Dir sub"
    using sub Cons.prems(1) by (metis map_of_is_SomeI option.inject)
  show ?case
  proof (cases "sub = []")
    case True
    let ?cur = "AList.delete n cur"
    have d: "distinct (map fst ?cur)" using Cons.prems(1) by (simp add: distinct_delete)
    have m: "\<forall>k\<in>set ds. \<exists>s. map_of ?cur k = Some (Dir s)"
      using Cons.prems(2,3) by (auto simp: delete_conv')
    from Cons.IH[OF d _ m, of "log @ [RemovedEmptyDir (rel @ [n])]"] Cons.prems(2)
    obtain evs where e: "for_each (rmdir_if_empty rel) ds (?cur, log @ [RemovedEmptyDir (rel @ [n])])
           = Done (filter (\<lambda>(k, x). \<not> (k \<in> set ds \<and> x = Dir [])) ?cur, log @ [RemovedEmptyDir (rel @ [n])] @ evs)"
      and r: "\<forall>e\<in>set evs. is_rmdir e" by auto
    have f: "filter (\<lambda>(k, x). \<not> (k \<in> set ds \<and> x = Dir [])) ?cur
           = filter (\<lambda>(k, x). \<not> (k \<in> set (n # ds) \<and> x = Dir [])) cur"
      unfolding AList.delete_eq filter_filter
      by (rule filter_cong) (use only True in auto)
    show ?thesis
      by (rule exI[of _ "RemovedEmptyDir (rel @ [n]) # evs"]) (use sub True e r f in simp)
  next
    case False
    from Cons.IH[OF Cons.prems(1), of log] Cons.prems(2,3)
    obtain evs where e: "for_each (rmdir_if_empty rel) ds (cur, log)
           = Done (filter (\<lambda>(k, x). \<not> (k \<in> set ds \<and> x = Dir [])) cur, log @ evs)"
      and r: "\<forall>e\<in>set evs. is_rmdir e" by auto
    have f: "filter (\<lambda>(k, x). \<not> (k \<in> set ds \<and> x = Dir [])) cur
           = filter (\<lambda>(k, x). \<not> (k \<in> set (n # ds) \<and> x = Dir [])) cur"
      by (rule filter_cong) (use only False in auto)
    show ?thesis
      by (rule exI[of _ evs]) (use sub False e r f in simp)
  qed
qed

lemma walk_up_swept:
  "wf es \<Longrightarrow> \<exists>evs. walk_up rel es log = Done (swept es, log @ evs) \<and> (\<forall>e\<in>set evs. is_rmdir e)"
  "wf rest \<Longrightarrow> \<exists>evs. walk_up_dirs rel rest st = Done (put_swept rest (fst st), snd st @ evs)
       \<and> (\<forall>e\<in>set evs. is_rmdir e)"
proof (induction rel es log and rel rest st rule: walk_up_walk_up_dirs.induct)
  case (1 rel es log)
  from 1 obtain evs1 where
    a: "walk_up_dirs rel es (es, log) = Done (swept_children es, log @ evs1)"
    and r1: "\<forall>e\<in>set evs1. is_rmdir e"
    by (auto simp: put_swept_self)
  have d: "distinct (map fst (swept_children es))" using 1(2) by (simp add: wf_distinct)
  have dd: "distinct (dirs_of es)" using 1(2) by (simp add: wf_distinct distinct_dirs_of)
  have m: "\<forall>n\<in>set (dirs_of es). \<exists>sub. map_of (swept_children es) n = Some (Dir sub)"
    using 1(2) dirs_of_swept_children[of es] wf_distinct[of es] by blast
  from rmdir_loop[OF d dd m, of rel "log @ evs1"] obtain evs2 where
    b: "for_each (rmdir_if_empty rel) (dirs_of es) (swept_children es, log @ evs1)
         = Done (filter (\<lambda>(n, x). \<not> (n \<in> set (dirs_of es) \<and> x = Dir [])) (swept_children es),
                 (log @ evs1) @ evs2)"
    and r2: "\<forall>e\<in>set evs2. is_rmdir e" by blast
  have f: "filter (\<lambda>(n, x). \<not> (n \<in> set (dirs_of es) \<and> x = Dir [])) (swept_children es)
         = filter (\<lambda>(n, x). x \<noteq> Dir []) (swept_children es)"
    by (rule filter_cong) (auto dest: swept_children_dirs)
  show ?case
    by (rule exI[of _ "evs1 @ evs2"]) (use a b f r1 r2 in \<open>auto simp: filter_swept_children\<close>)
next
  case (2 rel st)
  show ?case by (rule exI[of _ "[]"]) simp
next
  case (3 rel n c m rest st)
  then show ?case by simp
next
  case (4 rel n sub rest es log)
  from 4(3) have ws: "wf sub" and wr: "wf rest" by auto
  from 4(1)[OF ws] obtain evs1 where
    a: "walk_up (rel @ [n]) sub log = Done (swept sub, log @ evs1)"
    and r1: "\<forall>e\<in>set evs1. is_rmdir e" by blast
  from 4(2)[OF a refl wr]
  obtain evs2 where
    b: "walk_up_dirs rel rest (AList.update n (Dir (swept sub)) es, log @ evs1)
         = Done (put_swept rest (AList.update n (Dir (swept sub)) es), (log @ evs1) @ evs2)"
    and r2: "\<forall>e\<in>set evs2. is_rmdir e" by auto
  show ?case
    by (rule exI[of _ "evs1 @ evs2"]) (use a b r1 r2 in auto)
qed

lemma swept_Nil_iff: "swept es = [] \<longleftrightarrow> hollow es"
  by (induction es rule: swept.induct) auto

lemma tidy_swept: "tidy (swept es)"
  by (induction es rule: swept.induct) auto

lemma fst_swept_subset: "fst ` set (swept es) \<subseteq> fst ` set es"
  by (induction es rule: swept.induct) auto

lemma map_of_swept:
  "distinct (map fst es) \<Longrightarrow> map_of (swept es) n =
     (case map_of es n of
        None \<Rightarrow> None
      | Some (File c m) \<Rightarrow> Some (File c m)
      | Some (Dir sub) \<Rightarrow> if hollow sub then None else Some (Dir (swept sub)))"
proof (induction es rule: swept.induct)
  case 1
  then show ?case by simp
next
  case (2 k c m es)
  then show ?case by (auto split: option.splits node.splits)
next
  case (3 k sub es)
  have "k \<notin> fst ` set (swept es)" using "3.prems" fst_swept_subset[of es] by auto
  then have "map_of (swept es) k = None" by (simp add: map_of_eq_None_iff)
  with 3 show ?case by (auto simp: swept_Nil_iff split: option.splits node.splits)
qed

lemma wf_sub: "wf es \<Longrightarrow> map_of es n = Some (Dir sub) \<Longrightarrow> wf sub"
  by (induction es rule: wf.induct) (auto split: if_splits)

lemma hollow_map_of: "hollow es \<Longrightarrow> map_of es n = Some x \<Longrightarrow> \<exists>s. x = Dir s \<and> hollow s"
  by (induction es rule: hollow.induct) (auto split: if_splits)

lemma hollow_lookup: "hollow es \<Longrightarrow> lookup es p = Some x \<Longrightarrow> \<exists>s. x = Dir s \<and> hollow s"
proof (induction p arbitrary: es)
  case Nil
  then show ?case by auto
next
  case (Cons n q)
  then show ?case
    by (auto split: option.splits node.splits if_splits dest: hollow_map_of)
qed

lemma lookup_swept:
  "wf es \<Longrightarrow> lookup (swept es) p =
     (case lookup es p of
        None \<Rightarrow> None
      | Some (File c m) \<Rightarrow> Some (File c m)
      | Some (Dir sub) \<Rightarrow> if p \<noteq> [] \<and> hollow sub then None else Some (Dir (swept sub)))"
proof (induction p arbitrary: es)
  case Nil
  then show ?case by simp
next
  case (Cons n q)
  note d = wf_distinct[OF Cons.prems]
  show ?case
  proof (cases "map_of es n")
    case None
    then show ?thesis by (simp add: map_of_swept[OF d])
  next
    case (Some x)
    show ?thesis
    proof (cases x)
      case (File c m)
      with Some show ?thesis by (simp add: map_of_swept[OF d])
    next
      case (Dir sub)
      note ws = wf_sub[OF Cons.prems Some[unfolded Dir]]
      show ?thesis
      proof (cases "hollow sub")
        case True
        then show ?thesis using Some Dir hollow_lookup[OF True, of q]
          by (cases "lookup sub q") (auto simp: map_of_swept[OF d])
      next
        case False
        then show ?thesis using Some Dir Cons.IH[OF ws]
          by (cases q) (auto simp: map_of_swept[OF d] split: option.splits node.splits)
      qed
    qed
  qed
qed

lemma upward_Dir:
  "wf es \<Longrightarrow> \<exists>evs. upward (Some (Dir es)) log = Done (Some (Dir (swept es)), log @ evs)
      \<and> (\<forall>e\<in>set evs. is_rmdir e)"
  using walk_up_swept(1)[of es "[]" log] by (auto simp: upward_def)

text \<open>
  C8. The upward sweep (lines 50 to 55), run on a replica directory, does not raise and
  keeps the replica root, also when nothing is left in it. Afterwards no directory below
  the root is empty, and a directory below the root is gone exactly when it held no file at
  any depth: a parent whose subdirectories were all removed in the sweep is removed too.
\<close>

theorem upward_sweep:
  assumes "wf es"
  shows "\<exists>es' evs. upward (Some (Dir es)) log = Done (Some (Dir es'), log @ evs)
           \<and> tidy es'
           \<and> (\<forall>p sub. p \<noteq> [] \<and> lookup es p = Some (Dir sub) \<longrightarrow>
                 (lookup es' p = None \<longleftrightarrow> hollow sub))"
proof -
  from upward_Dir[OF assms] obtain evs where
    "upward (Some (Dir es)) log = Done (Some (Dir (swept es)), log @ evs)" by blast
  moreover have "tidy (swept es)" by (rule tidy_swept)
  moreover have "\<forall>p sub. p \<noteq> [] \<and> lookup es p = Some (Dir sub) \<longrightarrow>
                 (lookup (swept es) p = None \<longleftrightarrow> hollow sub)"
    by (simp add: lookup_swept[OF assms])
  ultimately show ?thesis by blast
qed

theorem upward_sweep_witness:
  "wf [(''e'', Dir [(''f'', Dir [])]), (''g'', Dir [(''z'', File ''3'' 1)])]
   \<and> upward (Some (Dir [(''e'', Dir [(''f'', Dir [])]), (''g'', Dir [(''z'', File ''3'' 1)])])) []
       = Done (Some (Dir [(''g'', Dir [(''z'', File ''3'' 1)])]),
               [RemovedEmptyDir [''e'', ''f''], RemovedEmptyDir [''e'']])
   \<and> tidy [(''g'', Dir [(''z'', File ''3'' 1)])]
   \<and> lookup [(''g'', Dir [(''z'', File ''3'' 1)])] [''e''] = None
   \<and> hollow [(''f'', Dir [])]"
  using upward_sweep [of "[(''e'', Dir [(''f'', Dir [])]), (''g'', Dir [(''z'', File ''3'' 1)])]" "[]"]
  by (simp add: upward_def)

text \<open>
  C10. With a source path that does not exist the pass returns normally. It logs nothing
  but removals of empty directories, every file of the replica is where it was, and no
  empty directory is left below the replica root. A replica that does not exist or is not a
  directory is left as it is.
\<close>

theorem missing_source_pass:
  assumes "wf es"
  shows "(\<exists>es' evs. synchronize_folders md5 flt None (Some (Dir es)) = Done (Some (Dir es'), evs)
            \<and> (\<forall>e\<in>set evs. is_rmdir e)
            \<and> (\<forall>p c m. lookup es' p = Some (File c m) \<longleftrightarrow> lookup es p = Some (File c m))
            \<and> tidy es')
       \<and> synchronize_folders md5 flt None None = Done (None, [])
       \<and> synchronize_folders md5 flt None (Some (File c0 m0)) = Done (Some (File c0 m0), [])"
proof -
  from upward_Dir[OF assms, of "[]"] obtain evs where
    "synchronize_folders md5 flt None (Some (Dir es)) = Done (Some (Dir (swept es)), evs)"
    and "\<forall>e\<in>set evs. is_rmdir e"
    by (auto simp: synchronize_folders_def downward_def)
  moreover have "\<forall>p c m. lookup (swept es) p = Some (File c m) \<longleftrightarrow> lookup es p = Some (File c m)"
    by (auto simp: lookup_swept[OF assms] split: option.splits node.splits if_splits)
  moreover have "tidy (swept es)" by (rule tidy_swept)
  moreover have "synchronize_folders md5 flt None None = Done (None, [])"
    by (simp add: synchronize_folders_def downward_def upward_def)
  moreover have "synchronize_folders md5 flt None (Some (File c0 m0)) = Done (Some (File c0 m0), [])"
    by (simp add: synchronize_folders_def downward_def upward_def)
  ultimately show ?thesis by blast
qed

theorem missing_source_pass_witness:
  "wf [(''e'', Dir [(''f'', Dir [])]), (''g'', Dir [(''z'', File ''3'' 1)])]
   \<and> synchronize_folders plain_digest no_faults None
        (Some (Dir [(''e'', Dir [(''f'', Dir [])]), (''g'', Dir [(''z'', File ''3'' 1)])]))
      = Done (Some (Dir [(''g'', Dir [(''z'', File ''3'' 1)])]),
              [RemovedEmptyDir [''e'', ''f''], RemovedEmptyDir [''e'']])
   \<and> tidy [(''g'', Dir [(''z'', File ''3'' 1)])]"
  using missing_source_pass [of "[(''e'', Dir [(''f'', Dir [])]), (''g'', Dir [(''z'', File ''3'' 1)])]"
      plain_digest no_faults]
  by (simp add: pass_defs)

subsection \<open>Source and replica are the same tree\<close>

lemma files_of_subset: "(n, c, m) \<in> set (files_of es) \<Longrightarrow> (n, File c m) \<in> set es"
  by (induction es rule: files_of.induct) auto

lemma files_of_iff: "(n, c, m) \<in> set (files_of es) \<longleftrightarrow> (n, File c m) \<in> set es"
  by (induction es rule: files_of.induct) auto

lemma dirs_of_iff: "n \<in> set (dirs_of es) \<longleftrightarrow> (\<exists>sub. (n, Dir sub) \<in> set es)"
  by (induction es rule: dirs_of.induct) auto

lemma copy_files_same:
  assumes "\<forall>(n, c, m) \<in> set fs. map_of es n = Some (File c m)"
  shows "for_each (sync_file md5 flt rel) fs (es, log) = Done (es, log)"
  using assms by (induction fs) auto

lemma prune_same:
  assumes "\<forall>(n, x) \<in> set rest. case x of File c m \<Rightarrow> n \<in> set files
                                   | Dir sub \<Rightarrow> n \<notin> set files \<and> map_of cur n = Some (Dir sub)"
  shows "for_each (prune_entry rel files) (map fst rest) (cur, log) =
     (if dirs_of rest = [] then Done (cur, log)
      else Raised (IsADirectoryError (rel @ [hd (dirs_of rest)])) (cur, log))"
  using assms by (induction rest rule: dirs_of.induct) auto

lemma walk_subdirs_flat: "dirs_of ses = [] \<Longrightarrow> walk_subdirs md5 flt rel ses st = Done st"
  by (induction ses rule: dirs_of.induct) auto

lemma walk_up_dirs_flat: "dirs_of rest = [] \<Longrightarrow> walk_up_dirs rel rest st = Done st"
  by (induction rest rule: dirs_of.induct) auto

lemma walk_up_flat: "dirs_of es = [] \<Longrightarrow> walk_up rel es log = Done (es, log)"
  by (simp add: walk_up_dirs_flat)

lemma same_tree_pass:
  assumes "wf es"
  shows "synchronize_folders md5 flt (Some (Dir es)) (Some (Dir es)) =
     (if dirs_of es = [] then Done (Some (Dir es), [])
      else Raised (IsADirectoryError [hd (dirs_of es)]) (Some (Dir es), []))"
proof -
  note d = wf_distinct[OF assms]
  have f: "\<forall>(n, c, m) \<in> set (files_of es). map_of es n = Some (File c m)"
    using d by (auto simp: files_of_iff)
  have p: "\<forall>(n, x) \<in> set es. case x of File c m \<Rightarrow> n \<in> set (map fst (files_of es))
             | Dir sub \<Rightarrow> n \<notin> set (map fst (files_of es)) \<and> map_of es n = Some (Dir sub)"
  proof (clarify, goal_cases)
    case (1 n x)
    show ?case
    proof (cases x)
      case (File c m)
      with 1 have "(n, c, m) \<in> set (files_of es)" by (simp add: files_of_iff)
      then show ?thesis using File by force
    next
      case (Dir sub)
      have "n \<notin> set (map fst (files_of es))"
      proof
        assume "n \<in> set (map fst (files_of es))"
        then obtain c m where "(n, c, m) \<in> set (files_of es)" by auto
        then have "(n, File c m) \<in> set es" by (simp add: files_of_iff)
        with 1 Dir d show False by (metis map_of_is_SomeI node.distinct(1) option.inject)
      qed
      moreover have "map_of es n = Some (Dir sub)" using 1 Dir d by simp
      ultimately show ?thesis using Dir by simp
    qed
  qed
  have m: "mirror_dir md5 flt [] es (Some (Dir es)) [] =
     (if dirs_of es = [] then Done (Dir es, [])
      else Raised (IsADirectoryError [hd (dirs_of es)]) (Dir es, []))"
    using prune_same[OF p, of "[]" "[]"]
    by (simp add: mirror_dir_def copy_files_same[OF f])
  show ?thesis
  proof (cases "dirs_of es = []")
    case True
    then show ?thesis
      by (simp add: synchronize_folders_def downward_def upward_def m walk_subdirs_flat
          walk_up_flat del: walk_up.simps)
  next
    case False
    then show ?thesis
      by (simp add: synchronize_folders_def downward_def m)
  qed
qed

text \<open>
  C6, as stated, fails in both of its cases, since nothing is reported in either. With a
  source path that does not exist and the replica \<open>{e/}\<close> the call returns normally and has
  removed \<open>e\<close> from the replica. With source and replica the same directory \<open>{a.txt}\<close> the
  call returns normally too.
\<close>

theorem precondition_counterexample:
  "synchronize_folders plain_digest no_faults None (Some (Dir [(''e'', Dir [])]))
     = Done (Some (Dir []), [RemovedEmptyDir [''e'']])
   \<and> synchronize_folders plain_digest no_faults
       (Some (Dir [(''a.txt'', File ''hello'' 0)])) (Some (Dir [(''a.txt'', File ''hello'' 0)]))
     = Done (Some (Dir [(''a.txt'', File ''hello'' 0)]), [])"
  by (simp add: pass_defs)

text \<open>
  C6, amended. No precondition failure is reported in either case.

  With a source path that does not exist the call returns normally. Every file of the
  replica is untouched and no directory is added, but the replica is mutated: a directory
  below its root is removed exactly when it holds no file at any depth. A replica that does
  not exist, or is a file, is left as it is.

  With source and replica the same directory the replica is not mutated and nothing is
  logged. The call returns normally when the root has no subdirectory; otherwise it raises
  during the traversal, at the first subdirectory of the root, which the pruning step hands
  to \<open>os.remove\<close>. The same directory is given to the pass as source and as replica; as
  nothing is written before the result, every read of the source sees that tree.
\<close>

theorem no_precondition_failure:
  assumes "wf es"
  shows "(\<exists>es' evs. synchronize_folders md5 flt None (Some (Dir es)) = Done (Some (Dir es'), evs)
            \<and> (\<forall>p c m. lookup es' p = Some (File c m) \<longleftrightarrow> lookup es p = Some (File c m))
            \<and> (\<forall>p sub'. lookup es' p = Some (Dir sub') \<longrightarrow> (\<exists>sub. lookup es p = Some (Dir sub)))
            \<and> (\<forall>p sub. p \<noteq> [] \<and> lookup es p = Some (Dir sub) \<longrightarrow>
                  (lookup es' p = None \<longleftrightarrow> hollow sub)))
       \<and> synchronize_folders md5 flt None None = Done (None, [])
       \<and> synchronize_folders md5 flt None (Some (File c0 m0)) = Done (Some (File c0 m0), [])
       \<and> synchronize_folders md5 flt (Some (Dir es)) (Some (Dir es)) =
           (if dirs_of es = [] then Done (Some (Dir es), [])
            else Raised (IsADirectoryError [hd (dirs_of es)]) (Some (Dir es), []))"
proof -
  from upward_Dir[OF assms, of "[]"] obtain evs where
    "synchronize_folders md5 flt None (Some (Dir es)) = Done (Some (Dir (swept es)), evs)"
    by (auto simp: synchronize_folders_def downward_def)
  moreover have "\<forall>p c m. lookup (swept es) p = Some (File c m) \<longleftrightarrow> lookup es p = Some (File c m)"
    by (auto simp: lookup_swept[OF assms] split: option.splits node.splits if_splits)
  moreover have "\<forall>p sub'. lookup (swept es) p = Some (Dir sub') \<longrightarrow> (\<exists>sub. lookup es p = Some (Dir sub))"
    by (auto simp: lookup_swept[OF assms] split: option.splits node.splits if_splits)
  moreover have "\<forall>p sub. p \<noteq> [] \<and> lookup es p = Some (Dir sub) \<longrightarrow>
                  (lookup (swept es) p = None \<longleftrightarrow> hollow sub)"
    by (simp add: lookup_swept[OF assms])
  moreover have "synchronize_folders md5 flt None None = Done (None, [])"
    by (simp add: synchronize_folders_def downward_def upward_def)
  moreover have "synchronize_folders md5 flt None (Some (File c0 m0)) = Done (Some (File c0 m0), [])"
    by (simp add: synchronize_folders_def downward_def upward_def)
  moreover note same_tree_pass[OF assms, of md5 flt]
  ultimately show ?thesis by blast
qed

theorem no_precondition_failure_witness:
  "wf [(''e'', Dir []), (''a.txt'', File ''hello'' 3)]
   \<and> synchronize_folders plain_digest no_faults None
        (Some (Dir [(''e'', Dir []), (''a.txt'', File ''hello'' 3)]))
      = Done (Some (Dir [(''a.txt'', File ''hello'' 3)]), [RemovedEmptyDir [''e'']])
   \<and> lookup [(''a.txt'', File ''hello'' 3)] [''a.txt''] = Some (File ''hello'' 3)
   \<and> synchronize_folders plain_digest no_faults
        (Some (Dir [(''e'', Dir []), (''a.txt'', File ''hello'' 3)]))
        (Some (Dir [(''e'', Dir []), (''a.txt'', File ''hello'' 3)]))
      = Raised (IsADirectoryError [''e''])
          (Some (Dir [(''e'', Dir []), (''a.txt'', File ''hello'' 3)]), [])"
  using no_precondition_failure [of "[(''e'', Dir []), (''a.txt'', File ''hello'' 3)]"
      plain_digest no_faults]
  by (simp add: pass_defs)

subsection \<open>A failing copy\<close>

lemma for_each_append:
  "for_each body (xs @ ys) s =
     (case for_each body xs s of Done s' \<Rightarrow> for_each body ys s' | Raised e s' \<Rightarrow> Raised e s')"
  by (induction xs arbitrary: s) (auto split: outcome.splits)

text \<open>
  C9, as stated, fails: the replica holds \<open>a.txt\<close> with the bytes \<open>world\<close>, the source has
  \<open>hello\<close>, and the copy fails after two bytes. The replica file is left with the bytes
  \<open>he\<close>: its previous content is gone and a partly written file is in its place.
\<close>

theorem atomicity_counterexample:
  "synchronize_folders plain_digest (\<lambda>p. if p = [''a.txt''] then Some (2, 9) else None)
     (Some (Dir [(''a.txt'', File ''hello'' 0)])) (Some (Dir [(''a.txt'', File ''world'' 1)]))
   = Raised (CopyError [''a.txt'']) (Some (Dir [(''a.txt'', File ''he'' 9)]), [])"
  by (simp add: pass_defs)

text \<open>
  C9, amended. A copy is written in place at the replica path. When the loop over the files
  of a source directory comes to a file that is to be copied and the copy fails after \<open>k\<close>
  bytes, the replica path holds the first \<open>k\<close> bytes of the source, an empty file when
  \<open>k = 0\<close>, whatever was there before. The other entries of the replica directory are as
  the loop had left them, no copy is logged for the file, and the loop ends there with the
  error: the files after it are not looked at.
\<close>

theorem interrupted_copy:
  assumes "for_each (sync_file md5 flt rel) pre (es, log) = Done (es1, log1)"
      and "needs_copy md5 es1 n c"
      and "flt (rel @ [n]) = Some (k, t)"
  shows "\<exists>es'. for_each (sync_file md5 flt rel) (pre @ (n, c, m) # post) (es, log)
             = Raised (CopyError (rel @ [n])) (es', log1)
           \<and> map_of es' n = Some (File (take k c) t)
           \<and> (\<forall>n'. n' \<noteq> n \<longrightarrow> map_of es' n' = map_of es1 n')"
  using assms
  by (auto simp: for_each_append needs_copy_def do_copy_def copy2_def
           split: option.splits node.splits)

theorem interrupted_copy_witness:
  "for_each (sync_file plain_digest (\<lambda>p. if p = [''a.txt''] then Some (2, 9) else None) [])
       [] ([(''a.txt'', File ''world'' 1)], []) = Done ([(''a.txt'', File ''world'' 1)], [])
   \<and> needs_copy plain_digest [(''a.txt'', File ''world'' 1)] ''a.txt'' ''hello''
   \<and> for_each (sync_file plain_digest (\<lambda>p. if p = [''a.txt''] then Some (2, 9) else None) [])
        [(''a.txt'', ''hello'', 0), (''b.txt'', ''next'', 0)] ([(''a.txt'', File ''world'' 1)], [])
      = Raised (CopyError [''a.txt'']) ([(''a.txt'', File ''he'' 9)], [])"
  using interrupted_copy [of plain_digest "\<lambda>p. if p = [''a.txt''] then Some (2, 9) else None" "[]" "[]"
      "[(''a.txt'', File ''world'' 1)]" "[]" "[(''a.txt'', File ''world'' 1)]" "[]"
      "''a.txt''" "''hello''" 2 9 0 "[(''b.txt'', ''next'', 0)]"]
  by (simp add: pass_defs needs_copy_def)

subsection \<open>A subdirectory at the replica root\<close>










subsection \<open>The downward pass, when it completes\<close>

lemma sync_file_distinct:
  assumes "sync_file md5 flt rel f (es, log) = Done (es', log')" "distinct (map fst es)"
  shows "distinct (map fst es')"
proof -
  obtain n c m where f: "f = (n, c, m)" by (cases f)
  from sync_file_Done[OF assms(1)[unfolded f]] assms(2) show ?thesis
    by (cases "needs_copy md5 es n c") (auto simp: distinct_update)
qed

lemma copy_files_distinct:
  assumes "for_each (sync_file md5 flt rel) fs (es, log) = Done (es', log')" "distinct (map fst es)"
  shows "distinct (map fst es')"
  using assms
proof (induction fs arbitrary: es log)
  case Nil
  then show ?case by simp
next
  case (Cons f fs)
  from Cons.prems(1) obtain es1 log1 where
    s: "sync_file md5 flt rel f (es, log) = Done (es1, log1)"
    and r: "for_each (sync_file md5 flt rel) fs (es1, log1) = Done (es', log')"
    by (auto split: outcome.splits)
  from Cons.IH[OF r sync_file_distinct[OF s Cons.prems(2)]] show ?case .
qed

lemma copy_files_Done:
  assumes "for_each (sync_file md5 flt rel) fs (es, log) = Done (es', log')"
      and "distinct (map fst fs)"
  shows "(\<forall>(n, c, m) \<in> set fs. \<exists>c' m'. map_of es' n = Some (File c' m') \<and> md5 c' = md5 c)
       \<and> (\<forall>n. n \<notin> fst ` set fs \<longrightarrow> map_of es' n = map_of es n)"
proof (intro conjI ballI allI impI)
  fix x assume x: "x \<in> set fs"
  obtain n c m where xe: "x = (n, c, m)" by (cases x)
  from copy_files_decision[OF assms x[unfolded xe]]
  have "map_of es' n = (if needs_copy md5 es n c then Some (File c m) else map_of es n)"
    and "\<forall>sub. map_of es n \<noteq> Some (Dir sub)" by auto
  then have "\<exists>c' m'. map_of es' n = Some (File c' m') \<and> md5 c' = md5 c"
    by (cases "map_of es n") (auto simp: needs_copy_def split: node.splits if_splits)
  then show "case x of (n, c, m) \<Rightarrow> \<exists>c' m'. map_of es' n = Some (File c' m') \<and> md5 c' = md5 c"
    by (simp add: xe)
next
  fix n assume "n \<notin> fst ` set fs"
  from copy_files_frame[OF assms(1) this] show "map_of es' n = map_of es n" by simp
qed

lemma prune_Done:
  assumes "for_each (prune_entry rel files) ns (es, log) = Done (es', log')"
  shows "(\<forall>n. map_of es' n = (if n \<in> set ns \<and> n \<notin> set files then None else map_of es n))
       \<and> (distinct (map fst es) \<longrightarrow> distinct (map fst es'))"
  using assms
proof (induction ns arbitrary: es log)
  case Nil
  then show ?case by simp
next
  case (Cons k ns)
  from Cons.prems obtain es1 log1 where
    s: "prune_entry rel files k (es, log) = Done (es1, log1)"
    and r: "for_each (prune_entry rel files) ns (es1, log1) = Done (es', log')"
    by (auto split: outcome.splits)
  from s have a: "\<forall>n. map_of es1 n = (if n = k \<and> k \<notin> set files then None else map_of es n)"
    and d: "distinct (map fst es) \<longrightarrow> distinct (map fst es1)"
    by (auto simp: delete_conv' distinct_delete split: if_splits option.splits node.splits)
  from Cons.IH[OF r] a d show ?case by auto
qed

lemma mirror_dir_Done:
  assumes "mirror_dir md5 flt rel ses r log = Done (d, log')"
      and "distinct (map fst (files_of ses))"
      and "r = None \<or> (\<exists>res. r = Some (Dir res) \<and> distinct (map fst res))"
  shows "\<exists>es'. d = Dir es' \<and> distinct (map fst es')
           \<and> (\<forall>(n, c, m) \<in> set (files_of ses). \<exists>c' m'. map_of es' n = Some (File c' m') \<and> md5 c' = md5 c)
           \<and> (\<forall>n. n \<notin> fst ` set (files_of ses) \<longrightarrow> map_of es' n = None)"
proof -
  define st0 where "st0 = (case r of Some (Dir es) \<Rightarrow> (es, log) | _ \<Rightarrow> ([], log @ [CreatedDir rel]))"
  have d0: "distinct (map fst (fst st0))" using assms(3) by (auto simp: st0_def)
  from assms(1,3) obtain es1 log1 es2 where
    f: "for_each (sync_file md5 flt rel) (files_of ses) st0 = Done (es1, log1)"
    and p: "for_each (prune_entry rel (map fst (files_of ses))) (map fst es1) (es1, log1) = Done (es2, log')"
    and de: "d = Dir es2"
    by (auto simp: mirror_dir_def st0_def Let_def split: outcome.splits prod.splits)
  obtain es0 log0 where s0: "st0 = (es0, log0)" by (cases st0)
  from copy_files_Done[OF f[unfolded s0] assms(2)]
  have a: "\<forall>(n, c, m) \<in> set (files_of ses). \<exists>c' m'. map_of es1 n = Some (File c' m') \<and> md5 c' = md5 c"
    by blast
  from copy_files_distinct[OF f[unfolded s0]] d0 s0 have d1: "distinct (map fst es1)" by simp
  from prune_Done[OF p] d1
  have m: "\<forall>n. map_of es2 n = (if n \<in> set (map fst es1) \<and> n \<notin> set (map fst (files_of ses)) then None else map_of es1 n)"
    and d2: "distinct (map fst es2)" by auto
  have b: "\<forall>(n, c, m) \<in> set (files_of ses). \<exists>c' m'. map_of es2 n = Some (File c' m') \<and> md5 c' = md5 c"
    using a m by force
  have c: "\<forall>n. n \<notin> fst ` set (files_of ses) \<longrightarrow> map_of es2 n = None"
  proof (intro allI impI)
    fix n assume n: "n \<notin> fst ` set (files_of ses)"
    show "map_of es2 n = None"
    proof (cases "n \<in> set (map fst es1)")
      case True
      with m n show ?thesis by simp
    next
      case False
      then have "map_of es1 n = None" by (simp add: map_of_eq_None_iff)
      with m show ?thesis by simp
    qed
  qed
  from de d2 b c show ?thesis by blast
qed

lemma wf_iff:
  "wf es \<longleftrightarrow> distinct (map fst es) \<and> (\<forall>n sub. (n, Dir sub) \<in> set es \<longrightarrow> wf sub)"
  by (induction es rule: wf.induct) auto

lemma wf_files_distinct: "wf es \<Longrightarrow> distinct (map fst (files_of es))"
proof (induction es rule: wf.induct)
  case (2 n c m es)
  then show ?case by (force simp: files_of_iff)
qed auto

lemma wf_map_of: "wf es \<Longrightarrow> map_of es n = Some x \<longleftrightarrow> (n, x) \<in> set es"
  by (simp add: wf_distinct)

lemma map_of_None_iff: "map_of es n = None \<longleftrightarrow> n \<notin> fst ` set es"
  by (simp add: map_of_eq_None_iff)

lemma file_names_subset: "n \<in> fst ` set (files_of es) \<longleftrightarrow> (\<exists>c m. (n, File c m) \<in> set es)"
  by (induction es rule: files_of.induct) auto

lemma assemble_mirrors:
  assumes "wf ses" and "distinct (map fst es')"
      and a: "\<forall>(n, c, m) \<in> set (files_of ses). \<exists>c' m'. map_of es' n = Some (File c' m') \<and> md5 c' = md5 c"
      and b: "\<forall>n sub. (n, Dir sub) \<in> set ses \<longrightarrow> (\<exists>sub'. map_of es' n = Some (Dir sub') \<and> mirrors md5 sub sub')"
      and c: "\<forall>n. n \<notin> fst ` set ses \<longrightarrow> map_of es' n = None"
  shows "mirrors md5 ses es'"
proof -
  have kind: "\<And>n. (case map_of ses n of
                 None \<Rightarrow> map_of es' n = None
               | Some (File c m) \<Rightarrow> (\<exists>c' m'. map_of es' n = Some (File c' m') \<and> md5 c' = md5 c)
               | Some (Dir sub) \<Rightarrow> (\<exists>sub'. map_of es' n = Some (Dir sub') \<and> mirrors md5 sub sub'))"
  proof -
    fix n
    show "?thesis n"
    proof (cases "map_of ses n")
      case None
      then have "n \<notin> fst ` set ses" by (simp add: map_of_eq_None_iff)
      with c have "map_of es' n = None" by blast
      with None show ?thesis by simp
    next
      case (Some x)
      then have i: "(n, x) \<in> set ses" using assms(1) by (simp add: wf_map_of)
      show ?thesis
      proof (cases x)
        case (File c0 m0)
        with i have "(n, c0, m0) \<in> set (files_of ses)" by (simp add: files_of_iff)
        with a Some File show ?thesis by auto
      next
        case (Dir sub)
        with i b Some show ?thesis by auto
      qed
    qed
  qed
  have w: "wf es'"
    unfolding wf_iff[of es']
  proof (intro conjI allI impI)
    show "distinct (map fst es')" by fact
  next
    fix n s assume "(n, Dir s) \<in> set es'"
    then have m: "map_of es' n = Some (Dir s)" using assms(2) by simp
    with kind[of n] show "wf s"
      by (auto simp: mirrors_def split: option.splits node.splits)
  qed
  have sh: "\<forall>q. shape_at md5 es' q = shape_at md5 ses q"
  proof
    fix q
    show "shape_at md5 es' q = shape_at md5 ses q"
    proof (cases q)
      case Nil
      then show ?thesis by (simp add: shape_at_def)
    next
      case (Cons n q')
      show ?thesis
      proof (cases "map_of ses n")
        case None
        with kind[of n] Cons show ?thesis by (simp add: shape_at_def)
      next
        case (Some x)
        show ?thesis
        proof (cases x)
          case (File c0 m0)
          with kind[of n] Some Cons show ?thesis by (auto simp: shape_at_def)
        next
          case (Dir sub)
          with kind[of n] Some obtain sub' where
            "map_of es' n = Some (Dir sub')" "\<forall>q. shape_at md5 sub' q = shape_at md5 sub q"
            by (auto simp: mirrors_def)
          with Some Dir Cons show ?thesis by (simp add: shape_at_def)
        qed
      qed
    qed
  qed
  from w sh show ?thesis by (simp add: mirrors_def)
qed


lemma wf_dir_not_file:
  assumes "wf ses" "n \<in> set (dirs_of ses)"
  shows "n \<notin> fst ` set (files_of ses)"
proof
  assume "n \<in> fst ` set (files_of ses)"
  then obtain c m where f: "(n, File c m) \<in> set ses" by (auto simp: file_names_subset)
  from assms(2) obtain sub where d: "(n, Dir sub) \<in> set ses" by (auto simp: dirs_of_iff)
  from f d wf_distinct[OF assms(1)] show False
    by (metis map_of_is_SomeI node.distinct(1) option.inject)
qed

lemma wf_tail: "wf (x # es) \<Longrightarrow> wf es"
  by (cases x; cases "snd x") auto

lemma walk_down_mirrors:
  "wf ses \<Longrightarrow> r = None \<or> (\<exists>res. r = Some (Dir res) \<and> distinct (map fst res)) \<Longrightarrow>
     walk_down md5 flt rel ses r log = Done (d, log') \<Longrightarrow> \<exists>es'. d = Dir es' \<and> mirrors md5 ses es'"
  "wf rest \<Longrightarrow> distinct (map fst (fst st)) \<Longrightarrow> \<forall>n\<in>set (dirs_of rest). map_of (fst st) n = None \<Longrightarrow>
     walk_subdirs md5 flt rel rest st = Done (es', log'') \<Longrightarrow>
     distinct (map fst es')
     \<and> (\<forall>n. n \<notin> set (dirs_of rest) \<longrightarrow> map_of es' n = map_of (fst st) n)
     \<and> (\<forall>n sub. (n, Dir sub) \<in> set rest \<longrightarrow> (\<exists>sub'. map_of es' n = Some (Dir sub') \<and> mirrors md5 sub sub'))"
proof (induction md5 flt rel ses r log and md5 flt rel rest st arbitrary: d log' and es' log''
       rule: walk_down_walk_subdirs.induct)
  case (1 md5 flt rel ses r log)
  from "1.prems"(3) obtain d2 log2 es' where
    m: "mirror_dir md5 flt rel ses r log = Done (d2, log2)"
    and w: "walk_subdirs md5 flt rel ses (entries_of d2, log2) = Done (es', log')"
    and de: "d = Dir es'"
    by (auto split: outcome.splits prod.splits)
  from mirror_dir_Done[OF m wf_files_distinct[OF "1.prems"(1)] "1.prems"(2)] obtain es2 where
    d2: "d2 = Dir es2" and dist: "distinct (map fst es2)"
    and fa: "\<forall>(n, c, m) \<in> set (files_of ses). \<exists>c' m'. map_of es2 n = Some (File c' m') \<and> md5 c' = md5 c"
    and fn: "\<forall>n. n \<notin> fst ` set (files_of ses) \<longrightarrow> map_of es2 n = None"
    by blast
  have nd: "\<forall>n\<in>set (dirs_of ses). map_of (fst (entries_of d2, log2)) n = None"
    using fn wf_dir_not_file[OF "1.prems"(1)] d2 by simp
  have dd: "distinct (map fst (fst (entries_of d2, log2)))" using dist d2 by simp
  from "1.IH"[OF m refl "1.prems"(1) dd nd w]
  have q1: "distinct (map fst es')"
    and q2: "\<forall>n. n \<notin> set (dirs_of ses) \<longrightarrow> map_of es' n = map_of es2 n"
    and q3: "\<forall>n sub. (n, Dir sub) \<in> set ses \<longrightarrow> (\<exists>sub'. map_of es' n = Some (Dir sub') \<and> mirrors md5 sub sub')"
    using d2 by auto
  have a: "\<forall>(n, c, m) \<in> set (files_of ses). \<exists>c' m'. map_of es' n = Some (File c' m') \<and> md5 c' = md5 c"
  proof (clarify, goal_cases)
    case (1 n c m)
    then have "n \<in> fst ` set (files_of ses)" by force
    with wf_dir_not_file[OF "1.prems"(1)] have "n \<notin> set (dirs_of ses)" by blast
    with q2 fa 1 show ?case by force
  qed
  have c: "\<forall>n. n \<notin> fst ` set ses \<longrightarrow> map_of es' n = None"
  proof (intro allI impI)
    fix n assume n: "n \<notin> fst ` set ses"
    then have "n \<notin> set (dirs_of ses)" using dirs_of_subset by blast
    moreover have "n \<notin> fst ` set (files_of ses)"
    proof
      assume "n \<in> fst ` set (files_of ses)"
      then obtain c m where "(n, File c m) \<in> set ses" unfolding file_names_subset by blast
      then have "n \<in> fst ` set ses" by force
      with n show False by simp
    qed
    ultimately show "map_of es' n = None" using q2 fn by simp
  qed
  from assemble_mirrors[OF "1.prems"(1) q1 a q3 c] de show ?case by simp
next
  case (2 md5 flt rel st)
  then show ?case by simp
next
  case (3 md5 flt rel n c m ses st)
  from "3.prems"(1) have w: "wf ses" by simp
  have p3: "\<forall>k\<in>set (dirs_of ses). map_of (fst st) k = None" using "3.prems"(3) by simp
  have p4: "walk_subdirs md5 flt rel ses st = Done (es', log'')" using "3.prems"(4) by simp
  from "3.IH"[OF w "3.prems"(2) p3 p4] show ?case
    by (simp del: map_of_eq_Some_iff)
next
  case (4 md5 flt rel n sub ses es log)
  from "4.prems"(1) have ws: "wf sub" and wr: "wf ses" and nn: "n \<notin> fst ` set ses" by auto
  from "4.prems"(3) have none: "map_of es n = None" by simp
  from "4.prems"(4) obtain d1 log1 where
    c: "walk_down md5 flt (rel @ [n]) sub (map_of es n) log = Done (d1, log1)"
    and r: "walk_subdirs md5 flt rel ses (AList.update n d1 es, log1) = Done (es', log'')"
    by (auto split: outcome.splits prod.splits)
  from "4.IH"(1)[OF ws _ c] none obtain sub' where
    d1: "d1 = Dir sub'" and ms: "mirrors md5 sub sub'" by auto
  have dist: "distinct (map fst (fst (AList.update n d1 es, log1)))"
    using "4.prems"(2) by (simp add: distinct_update)
  have nd: "\<forall>k\<in>set (dirs_of ses). map_of (fst (AList.update n d1 es, log1)) k = None"
    using "4.prems"(3) nn dirs_of_subset[of ses] by auto
  from "4.IH"(2)[OF c refl wr dist nd r]
  have q1: "distinct (map fst es')"
    and q2: "\<forall>k. k \<notin> set (dirs_of ses) \<longrightarrow> map_of es' k = map_of (AList.update n d1 es) k"
    and q3: "\<forall>k s. (k, Dir s) \<in> set ses \<longrightarrow> (\<exists>s'. map_of es' k = Some (Dir s') \<and> mirrors md5 s s')"
    by auto
  have nnd: "n \<notin> set (dirs_of ses)" using nn dirs_of_subset[of ses] by blast
  with q2 d1 have here: "map_of es' n = Some (Dir sub')" by simp
  show ?case
  proof (intro conjI allI impI)
    show "distinct (map fst es')" by fact
  next
    fix k assume "k \<notin> set (dirs_of ((n, Dir sub) # ses))"
    then have "k \<noteq> n" "k \<notin> set (dirs_of ses)" by auto
    with q2 show "map_of es' k = map_of (fst (es, log)) k" by simp
  next
    fix k s assume "(k, Dir s) \<in> set ((n, Dir sub) # ses)"
    then consider "k = n" "s = sub" | "(k, Dir s) \<in> set ses" by auto
    then show "\<exists>s'. map_of es' k = Some (Dir s') \<and> mirrors md5 s s'"
    proof cases
      case 1
      with here ms show ?thesis by simp
    next
      case 2
      with q3 show ?thesis by simp
    qed
  qed
qed

subsection \<open>What a completed pass leaves\<close>

lemma lookup_append:
  "lookup es p = Some (Dir sub) \<Longrightarrow> lookup es (p @ q) = lookup sub q"
proof (induction p arbitrary: es)
  case Nil
  then show ?case by simp
next
  case (Cons n p)
  then show ?case by (auto split: option.splits node.splits if_splits)
qed

lemma wf_lookup: "wf es \<Longrightarrow> lookup es p = Some (Dir sub) \<Longrightarrow> wf sub"
proof (induction p arbitrary: es)
  case Nil
  then show ?case by simp
next
  case (Cons n p)
  then show ?case by (auto split: option.splits node.splits if_splits dest: wf_sub)
qed

lemma no_file_hollow:
  "wf es \<Longrightarrow> \<forall>q c m. lookup es q \<noteq> Some (File c m) \<Longrightarrow> hollow es"
proof (induction es rule: hollow.induct)
  case 1
  then show ?case by simp
next
  case (2 n c m es)
  from "2.prems"(2) have "lookup ((n, File c m) # es) [n] \<noteq> Some (File c m)" by blast
  then show ?case by simp
next
  case (3 n sub es)
  from "3.prems"(1) have ws: "wf sub" and wr: "wf es" and nn: "n \<notin> fst ` set es" by auto
  have a: "\<forall>q c m. lookup sub q \<noteq> Some (File c m)"
  proof (intro allI)
    fix q c m
    from "3.prems"(2) have "lookup ((n, Dir sub) # es) (n # q) \<noteq> Some (File c m)" by blast
    then show "lookup sub q \<noteq> Some (File c m)" by simp
  qed
  have b: "\<forall>q c m. lookup es q \<noteq> Some (File c m)"
  proof (intro allI)
    fix q c m
    show "lookup es q \<noteq> Some (File c m)"
    proof (cases q)
      case Nil
      then show ?thesis by simp
    next
      case (Cons k q')
      show ?thesis
      proof (cases "k = n")
        case True
        from nn have "map_of es n = None" by (simp add: map_of_eq_None_iff)
        with True Cons show ?thesis by simp
      next
        case False
        from "3.prems"(2) have "lookup ((n, Dir sub) # es) (k # q') \<noteq> Some (File c m)" by blast
        with False Cons show ?thesis by simp
      qed
    qed
  qed
  from "3.IH"(1)[OF ws a] "3.IH"(2)[OF wr b] show ?case by simp
qed

lemma hollow_iff_no_file:
  "wf es \<Longrightarrow> hollow es \<longleftrightarrow> (\<forall>q h. shape_at md5 es q \<noteq> Some (IsFile h))"
proof
  assume "wf es" "hollow es"
  then show "\<forall>q h. shape_at md5 es q \<noteq> Some (IsFile h)"
    by (auto simp: shape_at_def dest: hollow_lookup)
next
  assume w: "wf es" and n: "\<forall>q h. shape_at md5 es q \<noteq> Some (IsFile h)"
  have "\<forall>q c m. lookup es q \<noteq> Some (File c m)"
  proof (intro allI notI)
    fix q c m assume "lookup es q = Some (File c m)"
    then have "shape_at md5 es q = Some (IsFile (md5 c))" by (simp add: shape_at_def)
    with n show False by blast
  qed
  from no_file_hollow[OF w this] show "hollow es" .
qed

lemma mirrors_lookup_dir:
  assumes "mirrors md5 ses es" "wf ses" "lookup ses p = Some (Dir sub)"
  shows "\<exists>sub'. lookup es p = Some (Dir sub') \<and> (hollow sub' \<longleftrightarrow> hollow sub)"
proof -
  from assms(1) have w: "wf es" and sh: "\<And>q. shape_at md5 es q = shape_at md5 ses q"
    by (auto simp: mirrors_def)
  from sh[of p] assms(3) obtain sub' where l: "lookup es p = Some (Dir sub')"
    by (cases "lookup es p"; cases "the (lookup es p)") (auto simp: shape_at_def)
  have "\<And>q. shape_at md5 sub' q = shape_at md5 sub q"
  proof -
    fix q
    from sh[of "p @ q"] show "shape_at md5 sub' q = shape_at md5 sub q"
      by (simp add: shape_at_def lookup_append[OF l] lookup_append[OF assms(3)])
  qed
  then have "hollow sub' \<longleftrightarrow> hollow sub"
    using hollow_iff_no_file[OF wf_lookup[OF w l], of md5]
          hollow_iff_no_file[OF wf_lookup[OF assms(2,3)], of md5] by simp
  with l show ?thesis by blast
qed

lemma downward_Done:
  assumes "wf ses"
      and "replica = None \<or> (\<exists>res. replica = Some (Dir res) \<and> wf res)"
      and "downward md5 flt (Some (Dir ses)) replica = Done (r, log)"
  shows "\<exists>es. r = Some (Dir es) \<and> mirrors md5 ses es"
proof -
  from assms(3) obtain d where
    w: "walk_down md5 flt [] ses replica [] = Done (d, log)" and r: "r = Some d"
    by (auto simp: downward_def split: outcome.splits prod.splits)
  from assms(2) have "replica = None \<or> (\<exists>res. replica = Some (Dir res) \<and> distinct (map fst res))"
    by (auto simp: wf_distinct)
  from walk_down_mirrors(1)[OF assms(1) this w] r show ?thesis by auto
qed

text \<open>
  C1, as stated, fails: the source holds one empty directory \<open>e\<close> and the replica does not
  exist. The pass completes, having created \<open>e\<close> and removed it again, and the replica is
  empty: the path \<open>e\<close> is under the source and not under the replica.
\<close>

theorem convergence_counterexample:
  "synchronize_folders plain_digest no_faults (Some (Dir [(''e'', Dir [])])) None
     = Done (Some (Dir []), [CreatedDir [], CreatedDir [''e''], RemovedEmptyDir [''e'']])
   \<and> set (all_paths [] [(''e'', Dir [])]) \<noteq> set (all_paths [] [])"
  by (simp add: pass_defs)

text \<open>
  C1, amended. If one pass over a source directory completes without raising, the replica
  is a directory afterwards, and at every relative path: the replica has a file exactly
  where the source has one, with the same digest; the replica has a directory exactly where
  the source has a directory that holds a file at some depth; and it has nothing anywhere
  else. So the files converge, and the directories of the source that hold no file at any
  depth are absent from the replica.
\<close>

theorem pass_result:
  assumes "wf ses"
      and "\<forall>res. replica = Some (Dir res) \<longrightarrow> wf res"
      and "synchronize_folders md5 flt (Some (Dir ses)) replica = Done (r', evs)"
  shows "\<exists>es'. r' = Some (Dir es')
           \<and> (\<forall>p. p \<noteq> [] \<longrightarrow> shape_at md5 es' p =
                 (case lookup ses p of
                    None \<Rightarrow> None
                  | Some (File c m) \<Rightarrow> Some (IsFile (md5 c))
                  | Some (Dir sub) \<Rightarrow> if hollow sub then None else Some IsDir))"
proof -
  from assms(3) obtain r log where
    d: "downward md5 flt (Some (Dir ses)) replica = Done (r, log)"
    and u: "upward r log = Done (r', evs)"
    by (auto simp: synchronize_folders_def split: outcome.splits prod.splits)
  have "replica = None \<or> (\<exists>res. replica = Some (Dir res) \<and> wf res)"
  proof (cases replica)
    case None
    then show ?thesis by simp
  next
    case (Some x)
    show ?thesis
    proof (cases x)
      case (File c m)
      with Some d show ?thesis by (simp add: downward_def mirror_dir_def)
    next
      case (Dir res)
      with Some assms(2) show ?thesis by simp
    qed
  qed
  from downward_Done[OF assms(1) this d] obtain es where
    r: "r = Some (Dir es)" and m: "mirrors md5 ses es" by blast
  from m have w: "wf es" and sh: "\<And>q. shape_at md5 es q = shape_at md5 ses q"
    by (auto simp: mirrors_def)
  from upward_Dir[OF w, of log] u r have r': "r' = Some (Dir (swept es))" by auto
  have "\<forall>p. p \<noteq> [] \<longrightarrow> shape_at md5 (swept es) p =
                 (case lookup ses p of
                    None \<Rightarrow> None
                  | Some (File c m) \<Rightarrow> Some (IsFile (md5 c))
                  | Some (Dir sub) \<Rightarrow> if hollow sub then None else Some IsDir)"
  proof (intro allI impI)
    fix p :: path assume p: "p \<noteq> []"
    show "shape_at md5 (swept es) p =
                 (case lookup ses p of
                    None \<Rightarrow> None
                  | Some (File c m) \<Rightarrow> Some (IsFile (md5 c))
                  | Some (Dir sub) \<Rightarrow> if hollow sub then None else Some IsDir)"
    proof (cases "lookup ses p")
      case None
      with sh[of p] have "lookup es p = None" by (simp add: shape_at_def)
      with None show ?thesis by (simp add: shape_at_def lookup_swept[OF w])
    next
      case (Some x)
      show ?thesis
      proof (cases x)
        case (File c m)
        with Some sh[of p] obtain c' m' where "lookup es p = Some (File c' m')" "md5 c' = md5 c"
          by (cases "lookup es p"; cases "the (lookup es p)") (auto simp: shape_at_def)
        with Some File show ?thesis by (simp add: shape_at_def lookup_swept[OF w])
      next
        case (Dir sub)
        from mirrors_lookup_dir[OF m assms(1) Some[unfolded Dir]] obtain sub' where
          "lookup es p = Some (Dir sub')" "hollow sub' \<longleftrightarrow> hollow sub" by blast
        with Some Dir p show ?thesis by (simp add: shape_at_def lookup_swept[OF w])
      qed
    qed
  qed
  with r' show ?thesis by blast
qed

theorem pass_result_witness:
  "wf [(''a.txt'', File ''hello'' 0), (''dir'', Dir [(''x.txt'', File ''1'' 0)]),
       (''e'', Dir [(''f'', Dir [])])]
   \<and> wf [(''b.txt'', File ''stale'' 1), (''a.txt'', File ''old'' 2)]
   \<and> synchronize_folders plain_digest no_faults
        (Some (Dir [(''a.txt'', File ''hello'' 0), (''dir'', Dir [(''x.txt'', File ''1'' 0)]),
                    (''e'', Dir [(''f'', Dir [])])]))
        (Some (Dir [(''b.txt'', File ''stale'' 1), (''a.txt'', File ''old'' 2)]))
      = Done (Some (Dir [(''a.txt'', File ''hello'' 0), (''dir'', Dir [(''x.txt'', File ''1'' 0)])]),
              [Copied [''a.txt''], Removed [''b.txt''], CreatedDir [''dir''],
               Copied [''dir'', ''x.txt''], CreatedDir [''e''], CreatedDir [''e'', ''f''],
               RemovedEmptyDir [''e'', ''f''], RemovedEmptyDir [''e'']])
   \<and> shape_at plain_digest
        [(''a.txt'', File ''hello'' 0), (''dir'', Dir [(''x.txt'', File ''1'' 0)])]
        [''dir'', ''x.txt''] = Some (IsFile ''1'')
   \<and> shape_at plain_digest
        [(''a.txt'', File ''hello'' 0), (''dir'', Dir [(''x.txt'', File ''1'' 0)])]
        [''e''] = None"
  using pass_result [of
      "[(''a.txt'', File ''hello'' 0), (''dir'', Dir [(''x.txt'', File ''1'' 0)]),
        (''e'', Dir [(''f'', Dir [])])]"
      "Some (Dir [(''b.txt'', File ''stale'' 1), (''a.txt'', File ''old'' 2)])"
      plain_digest no_faults
      "Some (Dir [(''a.txt'', File ''hello'' 0), (''dir'', Dir [(''x.txt'', File ''1'' 0)])])"
      "[Copied [''a.txt''], Removed [''b.txt''], CreatedDir [''dir''],
        Copied [''dir'', ''x.txt''], CreatedDir [''e''], CreatedDir [''e'', ''f''],
        RemovedEmptyDir [''e'', ''f''], RemovedEmptyDir [''e'']]"]
  by (simp add: pass_defs shape_at_def)

subsection \<open>A second pass\<close>

lemma copy_files_same_digest:
  assumes "\<forall>(n, c, m) \<in> set fs. \<exists>c' m'. map_of es n = Some (File c' m') \<and> md5 c' = md5 c"
  shows "for_each (sync_file md5 flt rel) fs (es, log) = Done (es, log)"
  using assms by (induction fs) auto

lemma wf_swept: "wf es \<Longrightarrow> wf (swept es)"
proof (induction es rule: swept.induct)
  case (2 n c m es)
  then show ?case using fst_swept_subset[of es] by auto
next
  case (3 n sub es)
  then show ?case using fst_swept_subset[of es] by auto
qed simp

lemma hollow_files: "hollow es \<Longrightarrow> files_of es = []"
  by (induction es rule: hollow.induct) auto

lemma hollow_child: "hollow es \<Longrightarrow> (n, Dir sub) \<in> set es \<Longrightarrow> hollow sub"
  by (induction es rule: hollow.induct) auto

lemma tidy_not_hollow: "tidy es \<Longrightarrow> es \<noteq> [] \<Longrightarrow> \<not> hollow es"
  by (induction es rule: tidy.induct) auto

lemma tidy_child: "tidy es \<Longrightarrow> (n, Dir sub) \<in> set es \<Longrightarrow> \<not> hollow sub"
  by (induction es rule: tidy.induct) (auto dest: tidy_not_hollow)

lemma walk_down_hollow:
  "wf ses \<Longrightarrow> hollow ses \<Longrightarrow>
     \<exists>d evs. walk_down md5 flt rel ses None log = Done (d, log @ evs) \<and> (\<forall>e\<in>set evs. is_mkdir e)"
  "wf rest \<Longrightarrow> \<forall>n sub. (n, Dir sub) \<in> set rest \<longrightarrow> hollow sub \<Longrightarrow>
     \<forall>n\<in>set (dirs_of rest). map_of (fst st) n = None \<Longrightarrow>
     \<exists>es' evs. walk_subdirs md5 flt rel rest st = Done (es', snd st @ evs) \<and> (\<forall>e\<in>set evs. is_mkdir e)"
proof (induction md5 flt rel ses "None :: node option" log and md5 flt rel rest st
       rule: walk_down_walk_subdirs.induct)
  case (1 md5 flt rel ses log)
  have m: "mirror_dir md5 flt rel ses None log = Done (Dir [], log @ [CreatedDir rel])"
    by (simp add: mirror_dir_def hollow_files[OF "1.prems"(2)])
  have hc: "\<forall>n sub. (n, Dir sub) \<in> set ses \<longrightarrow> hollow sub"
    using hollow_child[OF "1.prems"(2)] by blast
  from "1.hyps"[OF m refl "1.prems"(1) hc] obtain es' evs where
    "walk_subdirs md5 flt rel ses ([], log @ [CreatedDir rel]) = Done (es', (log @ [CreatedDir rel]) @ evs)"
    and "\<forall>e\<in>set evs. is_mkdir e" by auto
  then show ?case
    by (intro exI[of _ "Dir es'"] exI[of _ "CreatedDir rel # evs"]) (simp add: m)
next
  case (2 md5 flt rel st)
  show ?case by (intro exI[of _ "fst st"] exI[of _ "[]"]) simp
next
  case (3 md5 flt rel n c m ses st)
  then show ?case by simp
next
  case (4 md5 flt rel n sub ses es log)
  from "4.prems"(1) have ws: "wf sub" and wr: "wf ses" and nn: "n \<notin> fst ` set ses" by auto
  from "4.prems"(2) have hs: "hollow sub"
    and hr: "\<forall>k s. (k, Dir s) \<in> set ses \<longrightarrow> hollow s" by auto
  from "4.prems"(3) have none: "map_of es n = None" by simp
  from "4.hyps"(1)[OF none ws hs] none obtain d evs1 where
    c: "walk_down md5 flt (rel @ [n]) sub (map_of es n) log = Done (d, log @ evs1)"
    and e1: "\<forall>e\<in>set evs1. is_mkdir e" by auto
  have nd: "\<forall>k\<in>set (dirs_of ses). map_of (fst (AList.update n d es, log @ evs1)) k = None"
    using "4.prems"(3) nn dirs_of_subset[of ses] by auto
  from "4.hyps"(2)[OF c refl wr hr nd] obtain es' evs2 where
    r: "walk_subdirs md5 flt rel ses (AList.update n d es, log @ evs1) = Done (es', (log @ evs1) @ evs2)"
    and e2: "\<forall>e\<in>set evs2. is_mkdir e" by auto
  show ?case
    by (intro exI[of _ es'] exI[of _ "evs1 @ evs2"]) (use c r e1 e2 in auto)
qed


lemma mirrors_top:
  assumes "mirrors md5 ses D" "wf ses"
  shows "case map_of ses n of
           None \<Rightarrow> map_of D n = None
         | Some (File c m) \<Rightarrow> (\<exists>c' m'. map_of D n = Some (File c' m') \<and> md5 c' = md5 c)
         | Some (Dir sub) \<Rightarrow> (\<exists>sub'. map_of D n = Some (Dir sub') \<and> (hollow sub' \<longleftrightarrow> hollow sub))"
proof -
  from assms(1) have sh: "shape_at md5 D [n] = shape_at md5 ses [n]" by (simp add: mirrors_def)
  show ?thesis
  proof (cases "map_of ses n")
    case None
    with sh show ?thesis
      by (cases "map_of D n"; cases "the (map_of D n)") (auto simp: shape_at_def)
  next
    case (Some x)
    show ?thesis
    proof (cases x)
      case (File c m)
      with Some sh show ?thesis
        by (cases "map_of D n"; cases "the (map_of D n)") (auto simp: shape_at_def)
    next
      case (Dir sub)
      with Some have "lookup ses [n] = Some (Dir sub)" by simp
      from mirrors_lookup_dir[OF assms this] obtain sub' where
        "lookup D [n] = Some (Dir sub')" "hollow sub' \<longleftrightarrow> hollow sub" by blast
      then show ?thesis using Some Dir
        by (cases "map_of D n"; cases "the (map_of D n)") auto
    qed
  qed
qed

lemma swept_mirror_top:
  assumes "mirrors md5 ses D" "wf ses"
  shows "case map_of ses n of
           None \<Rightarrow> map_of (swept D) n = None
         | Some (File c m) \<Rightarrow> (\<exists>c' m'. map_of (swept D) n = Some (File c' m') \<and> md5 c' = md5 c)
         | Some (Dir sub) \<Rightarrow> (if hollow sub then map_of (swept D) n = None
                               else (\<exists>s. map_of (swept D) n = Some (Dir s)))"
proof -
  from assms(1) have "distinct (map fst D)" by (simp add: mirrors_def wf_distinct)
  note ms = map_of_swept[OF this, of n]
  from mirrors_top[OF assms, of n] ms show ?thesis
    by (cases "map_of ses n"; cases "the (map_of ses n)") auto
qed

lemma pass_Done_swept:
  assumes "wf ses"
      and "\<forall>res. replica = Some (Dir res) \<longrightarrow> wf res"
      and "synchronize_folders md5 flt (Some (Dir ses)) replica = Done (r', evs)"
  shows "\<exists>D. r' = Some (Dir (swept D)) \<and> mirrors md5 ses D"
proof -
  from assms(3) obtain r log where
    d: "downward md5 flt (Some (Dir ses)) replica = Done (r, log)"
    and u: "upward r log = Done (r', evs)"
    by (auto simp: synchronize_folders_def split: outcome.splits prod.splits)
  have "replica = None \<or> (\<exists>res. replica = Some (Dir res) \<and> wf res)"
  proof (cases replica)
    case None
    then show ?thesis by simp
  next
    case (Some x)
    show ?thesis
    proof (cases x)
      case (File c m)
      with Some d show ?thesis by (simp add: downward_def mirror_dir_def)
    next
      case (Dir res)
      with Some assms(2) show ?thesis by simp
    qed
  qed
  from downward_Done[OF assms(1) this d] obtain es where
    r: "r = Some (Dir es)" and m: "mirrors md5 ses es" by blast
  from m have w: "wf es" by (simp add: mirrors_def)
  from upward_Dir[OF w, of log] u r have "r' = Some (Dir (swept es))" by auto
  with m show ?thesis by blast
qed

lemma second_mirror_dir:
  assumes "mirrors md5 ses D" "wf ses"
  shows "mirror_dir md5 flt rel ses (Some (Dir (swept D))) log =
     (if dirs_of (swept D) = [] then Done (Dir (swept D), log)
      else Raised (IsADirectoryError (rel @ [hd (dirs_of (swept D))])) (Dir (swept D), log))"
proof -
  let ?es = "swept D"
  from assms(1) have wD: "wf D" by (simp add: mirrors_def)
  note de = wf_distinct[OF wf_swept[OF wD]]
  note ds = wf_distinct[OF assms(2)]
  have f: "\<forall>(n, c, m) \<in> set (files_of ses). \<exists>c' m'. map_of ?es n = Some (File c' m') \<and> md5 c' = md5 c"
  proof (clarify, goal_cases)
    case (1 n c m)
    then have "map_of ses n = Some (File c m)" using ds by (simp add: files_of_iff)
    with swept_mirror_top[OF assms, of n] show ?case by simp
  qed
  have p: "\<forall>(n, x) \<in> set ?es. case x of File c m \<Rightarrow> n \<in> set (map fst (files_of ses))
             | Dir sub \<Rightarrow> n \<notin> set (map fst (files_of ses)) \<and> map_of ?es n = Some (Dir sub)"
  proof (clarify, goal_cases)
    case (1 n x)
    then have mx: "map_of ?es n = Some x" using de by simp
    show ?case
    proof (cases "map_of ses n")
      case None
      with swept_mirror_top[OF assms, of n] mx show ?thesis by simp
    next
      case (Some y)
      show ?thesis
      proof (cases y)
        case (File c m)
        with Some have "(n, c, m) \<in> set (files_of ses)" using ds by (simp add: files_of_iff)
        then have nf: "n \<in> set (map fst (files_of ses))" by force
        from swept_mirror_top[OF assms, of n] mx Some File obtain c' m' where "x = File c' m'"
          by auto
        with nf show ?thesis by simp
      next
        case (Dir sub)
        with Some have "(n, Dir sub) \<in> set ses" using ds by simp
        then have "n \<in> set (dirs_of ses)" by (auto simp: dirs_of_iff)
        from wf_dir_not_file[OF assms(2) this] have "n \<notin> set (map fst (files_of ses))" by simp
        with swept_mirror_top[OF assms, of n] mx Some Dir show ?thesis
          by (auto split: if_splits)
      qed
    qed
  qed
  show ?thesis
    using prune_same[OF p, of rel log]
    by (simp add: mirror_dir_def copy_files_same_digest[OF f])
qed


text \<open>
  C3, as stated, fails: the source holds one empty directory \<open>e\<close> and the replica does not
  exist. The first pass completes and leaves an empty replica. The second pass, on the same
  source, creates \<open>e\<close> again and removes it again: one creation and one removal.
\<close>

theorem idempotence_counterexample:
  "synchronize_folders plain_digest no_faults (Some (Dir [(''e'', Dir [])])) None
     = Done (Some (Dir []), [CreatedDir [], CreatedDir [''e''], RemovedEmptyDir [''e'']])
   \<and> synchronize_folders plain_digest no_faults (Some (Dir [(''e'', Dir [])])) (Some (Dir []))
     = Done (Some (Dir []), [CreatedDir [''e''], RemovedEmptyDir [''e'']])"
  by (simp add: pass_defs)

text \<open>
  C3, amended. If a pass over a source directory completes and the source is unchanged, a
  second pass run on what the first one left copies no file and removes no file, whether it
  returns or raises: its log holds nothing but directory creations and removals of empty
  directories. If moreover no directory below the source root is empty, the second pass logs
  nothing at all and leaves the replica as the first pass left it.
\<close>

theorem second_pass:
  assumes "wf ses"
      and "\<forall>res. replica = Some (Dir res) \<longrightarrow> wf res"
      and "synchronize_folders md5 flt (Some (Dir ses)) replica = Done (r1, evs1)"
  shows "(\<forall>e \<in> set (snd (state_of (synchronize_folders md5 flt2 (Some (Dir ses)) r1))).
            is_mkdir e \<or> is_rmdir e)
       \<and> (tidy ses \<longrightarrow> state_of (synchronize_folders md5 flt2 (Some (Dir ses)) r1) = (r1, []))"
proof -
  from pass_Done_swept[OF assms] obtain D where
    r1: "r1 = Some (Dir (swept D))" and m: "mirrors md5 ses D" by blast
  let ?es = "swept D"
  from m have wD: "wf D" by (simp add: mirrors_def)
  note we = wf_swept[OF wD]
  note md = second_mirror_dir[OF m assms(1), of flt2 "[]" "[]"]
  show ?thesis
  proof (cases "dirs_of ?es = []")
    case False
    then have "synchronize_folders md5 flt2 (Some (Dir ses)) r1
        = Raised (IsADirectoryError [hd (dirs_of ?es)]) (Some (Dir ?es), [])"
      by (simp add: synchronize_folders_def downward_def md r1)
    then show ?thesis by (simp add: r1)
  next
    case True
    have hd: "\<forall>n sub. (n, Dir sub) \<in> set ses \<longrightarrow> hollow sub \<and> map_of ?es n = None"
    proof (intro allI impI)
      fix n sub assume i: "(n, Dir sub) \<in> set ses"
      then have ms: "map_of ses n = Some (Dir sub)" using wf_distinct[OF assms(1)] by simp
      show "hollow sub \<and> map_of ?es n = None"
      proof (cases "hollow sub")
        case True
        with swept_mirror_top[OF m assms(1), of n] ms show ?thesis by simp
      next
        case False
        with swept_mirror_top[OF m assms(1), of n] ms obtain s where
          "map_of ?es n = Some (Dir s)" by auto
        then have "(n, Dir s) \<in> set ?es" by (rule map_of_SomeD)
        then have "n \<in> set (dirs_of ?es)" by (auto simp: dirs_of_iff)
        with True show ?thesis by simp
      qed
    qed
    then have h1: "\<forall>n sub. (n, Dir sub) \<in> set ses \<longrightarrow> hollow sub" by blast
    have h2: "\<forall>n\<in>set (dirs_of ses). map_of (fst (?es, [] :: event list)) n = None"
      using hd by (auto simp: dirs_of_iff)
    from walk_down_hollow(2)[OF assms(1) h1 h2, of md5 flt2 "[]"] obtain es' evsC where
      ws: "walk_subdirs md5 flt2 [] ses (?es, []) = Done (es', evsC)"
      and ec: "\<forall>e\<in>set evsC. is_mkdir e" by auto
    have dw: "downward md5 flt2 (Some (Dir ses)) r1 = Done (Some (Dir es'), evsC)"
      using True ws by (simp add: downward_def md r1)
    have "r1 = None \<or> (\<exists>res. r1 = Some (Dir res) \<and> wf res)" using we r1 by simp
    from downward_Done[OF assms(1) this dw] have "wf es'" by (simp add: mirrors_def)
    from upward_Dir[OF this, of evsC] obtain evsR where
      up: "upward (Some (Dir es')) evsC = Done (Some (Dir (swept es')), evsC @ evsR)"
      and er: "\<forall>e\<in>set evsR. is_rmdir e" by blast
    have s2: "synchronize_folders md5 flt2 (Some (Dir ses)) r1
        = Done (Some (Dir (swept es')), evsC @ evsR)"
      by (simp add: synchronize_folders_def dw up)
    have a: "\<forall>e \<in> set (snd (state_of (synchronize_folders md5 flt2 (Some (Dir ses)) r1))).
            is_mkdir e \<or> is_rmdir e"
      using ec er by (auto simp: s2)
    have b: "tidy ses \<longrightarrow> state_of (synchronize_folders md5 flt2 (Some (Dir ses)) r1) = (r1, [])"
    proof
      assume t: "tidy ses"
      have "dirs_of ses = []"
      proof (rule ccontr)
        assume "dirs_of ses \<noteq> []"
        then obtain n where "n \<in> set (dirs_of ses)" by (cases "dirs_of ses") auto
        then obtain sub where i: "(n, Dir sub) \<in> set ses" by (auto simp: dirs_of_iff)
        with h1 tidy_child[OF t i] show False by blast
      qed
      then have "walk_subdirs md5 flt2 [] ses (?es, []) = Done (?es, [])"
        by (rule walk_subdirs_flat)
      then have "downward md5 flt2 (Some (Dir ses)) r1 = Done (Some (Dir ?es), [])"
        using True by (simp add: downward_def md r1)
      then have "synchronize_folders md5 flt2 (Some (Dir ses)) r1 = Done (Some (Dir ?es), [])"
        using True by (simp add: synchronize_folders_def upward_def walk_up_flat del: walk_up.simps)
      then show "state_of (synchronize_folders md5 flt2 (Some (Dir ses)) r1) = (r1, [])"
        by (simp add: r1)
    qed
    from a b show ?thesis by blast
  qed
qed

theorem second_pass_witness:
  "wf [(''a.txt'', File ''hello'' 0), (''e'', Dir [])]
   \<and> synchronize_folders plain_digest no_faults
        (Some (Dir [(''a.txt'', File ''hello'' 0), (''e'', Dir [])])) None
      = Done (Some (Dir [(''a.txt'', File ''hello'' 0)]),
              [CreatedDir [], Copied [''a.txt''], CreatedDir [''e''], RemovedEmptyDir [''e'']])
   \<and> synchronize_folders plain_digest no_faults
        (Some (Dir [(''a.txt'', File ''hello'' 0), (''e'', Dir [])]))
        (Some (Dir [(''a.txt'', File ''hello'' 0)]))
      = Done (Some (Dir [(''a.txt'', File ''hello'' 0)]),
              [CreatedDir [''e''], RemovedEmptyDir [''e'']])
   \<and> wf [(''a.txt'', File ''hello'' 0), (''dir'', Dir [(''x.txt'', File ''1'' 0)])]
   \<and> tidy [(''a.txt'', File ''hello'' 0), (''dir'', Dir [(''x.txt'', File ''1'' 0)])]
   \<and> synchronize_folders plain_digest no_faults
        (Some (Dir [(''a.txt'', File ''hello'' 0), (''dir'', Dir [(''x.txt'', File ''1'' 0)])])) None
      = Done (Some (Dir [(''a.txt'', File ''hello'' 0), (''dir'', Dir [(''x.txt'', File ''1'' 0)])]),
              [CreatedDir [], Copied [''a.txt''], CreatedDir [''dir''], Copied [''dir'', ''x.txt'']])
   \<and> state_of (synchronize_folders plain_digest no_faults
        (Some (Dir [(''a.txt'', File ''hello'' 0), (''dir'', Dir [(''x.txt'', File ''1'' 0)])]))
        (Some (Dir [(''a.txt'', File ''hello'' 0), (''dir'', Dir [(''x.txt'', File ''1'' 0)])])))
      = (Some (Dir [(''a.txt'', File ''hello'' 0), (''dir'', Dir [(''x.txt'', File ''1'' 0)])]), [])"
  using second_pass [of "[(''a.txt'', File ''hello'' 0), (''e'', Dir [])]" None
      plain_digest no_faults "Some (Dir [(''a.txt'', File ''hello'' 0)])"
      "[CreatedDir [], Copied [''a.txt''], CreatedDir [''e''], RemovedEmptyDir [''e'']]" no_faults]
    second_pass [of "[(''a.txt'', File ''hello'' 0), (''dir'', Dir [(''x.txt'', File ''1'' 0)])]" None
      plain_digest no_faults
      "Some (Dir [(''a.txt'', File ''hello'' 0), (''dir'', Dir [(''x.txt'', File ''1'' 0)])])"
      "[CreatedDir [], Copied [''a.txt''], CreatedDir [''dir''], Copied [''dir'', ''x.txt'']]" no_faults]
  by (simp add: pass_defs)

end
